theory Spec2Isabelle
  imports Main "HOL-Library.Word" "HOL-Library.Log_Nat" "HOL-Library.AList"
begin

unbundle bit_operations_syntax

section \<open>Bytes, errors and the byte stream\<close>

text \<open>
  The codec of \<^verbatim>\<open>src/unnamed/part_002\<close> (the \<^verbatim>\<open>Encoder\<close>/\<^verbatim>\<open>Decoder\<close> module with the
  NOCYCLE option and varint counts) is embedded function by function.  Every \<^verbatim>\<open>throw\<close>
  of the source is a value of \<open>error\<close>; a function that can throw returns
  \<open>error + 'a\<close> with \<open>Inl\<close> for the error.
\<close>

type_synonym byte = "8 word"

datatype error =
    InvalidData                  \<comment> \<open>\<^verbatim>\<open>"Invalid data"\<close>\<close>
  | VersionMismatch              \<comment> \<open>\<^verbatim>\<open>"Major version mistmatch"\<close>\<close>
  | ChecksumMismatch             \<comment> \<open>\<^verbatim>\<open>"CRC32 checksum mistmach"\<close>\<close>
  | UnsupportedType              \<comment> \<open>\<^verbatim>\<open>"Unsupported type (as of yet)"\<close>\<close>
  | InvalidCount                 \<comment> \<open>\<^verbatim>\<open>"Invalid count value"\<close>\<close>
  | UnexpectedTag byte           \<comment> \<open>\<^verbatim>\<open>"Unexpected tag"\<close>\<close>
  | OutOfBoundString             \<comment> \<open>\<^verbatim>\<open>"Out of bound string reference"\<close>\<close>
  | OutOfBoundProperty           \<comment> \<open>\<^verbatim>\<open>"Out of bound property reference"\<close>\<close>
  | InvalidObjectReference       \<comment> \<open>\<^verbatim>\<open>"Invalid object reference"\<close>\<close>
  | Truncated                    \<comment> \<open>the byte stream's range error on underflow\<close>
  | OutOfFuel                    \<comment> \<open>not an error of the program: the recursion bound of the model ran out\<close>

subsection \<open>Count values (varints)\<close>

text \<open>
  \<^verbatim>\<open>Encoder.prototype.serializeCount\<close>: after the guard \<^verbatim>\<open>(value >>> 0) !== value\<close> the value is
  an unsigned 32-bit integer, and the loop works on it with \<^verbatim>\<open>&\<close>, \<^verbatim>\<open>|\<close> and \<^verbatim>\<open>>>>=\<close>.
\<close>

function serializeCount_loop :: "32 word \<Rightarrow> byte list" where
  "serializeCount_loop v =
     (if v \<ge> 0x80 then ucast ((v AND 0x7F) OR 0x80) # serializeCount_loop (drop_bit 7 v)
      else [ucast v])"
  by pat_completeness auto
termination
proof (relation "measure unat")
  show "wf (measure unat)" by simp
next
  fix v :: "32 word"
  assume "0x80 \<le> v"
  then have "128 \<le> unat v" by (simp add: word_le_nat_alt)
  then have "unat v div 128 < unat v" by simp
  moreover have "unat (drop_bit 7 v) = unat v div 128"
    unfolding unat_drop_bit_eq by (simp add: drop_bit_eq_div)
  ultimately show "(drop_bit 7 v, v) \<in> measure unat" by simp
qed

definition serializeCount_bytes :: "int \<Rightarrow> error + byte list" where
  "serializeCount_bytes v =
     (if 0 \<le> v \<and> v < 2 ^ 32 then Inr (serializeCount_loop (word_of_int v)) else Inl InvalidCount)"

text \<open>
  \<^verbatim>\<open>Decoder.prototype.unserializeCount\<close>: the \<^verbatim>\<open>do ... while\<close> loop over the bytes that follow the
  cursor.  \<^verbatim>\<open>value\<close> is a 32-bit integer (\<^verbatim>\<open>|=\<close> converts to int32), \<^verbatim>\<open>c\<close> counts the bytes read
  and the shift \<^verbatim>\<open><<\<close> takes its count modulo 32.  The result is the accumulated word read
  as a signed integer together with the number of bytes consumed; \<open>None\<close> is the range
  error of \<^verbatim>\<open>readUint8\<close> at the end of the buffer.
\<close>

fun unserializeCount_loop :: "byte list \<Rightarrow> nat \<Rightarrow> 32 word \<Rightarrow> (32 word \<times> nat) option" where
  "unserializeCount_loop [] c v = None"
| "unserializeCount_loop (b # bs) c v =
     (let v' = v OR push_bit ((7 * c) mod 32) (ucast (b AND 0x7F)) in
      if b AND 0x80 \<noteq> 0 then unserializeCount_loop bs (c + 1) v' else Some (v', c + 1))"

definition unserializeCount_bytes :: "byte list \<Rightarrow> (int \<times> nat) option" where
  "unserializeCount_bytes bs =
     (case unserializeCount_loop bs 0 0 of None \<Rightarrow> None | Some (v, n) \<Rightarrow> Some (sint v, n))"


subsection \<open>CRC-32\<close>

text \<open>
  The table generator and \<^verbatim>\<open>crc32\<close> of the source, on 32-bit words.  The initial value
  \<^verbatim>\<open>-1\<close> and the final \<^verbatim>\<open>crc ^ -1\<close> are the word \<open>0xFFFFFFFF\<close>.
\<close>

definition crc_step :: "32 word \<Rightarrow> 32 word" where
  "crc_step tmp = (if tmp AND 1 \<noteq> 0 then 3988292384 XOR drop_bit 1 tmp else drop_bit 1 tmp)"

definition crc_table :: "32 word \<Rightarrow> 32 word" where
  "crc_table i = (crc_step ^^ 8) i"

fun crc_loop :: "32 word \<Rightarrow> byte list \<Rightarrow> 32 word" where
  "crc_loop crc [] = crc"
| "crc_loop crc (b # bs) =
     crc_loop (drop_bit 8 crc XOR crc_table ((crc AND 255) XOR ucast b)) bs"

definition crc32 :: "byte list \<Rightarrow> 32 word" where
  "crc32 data = crc_loop 0xFFFFFFFF data XOR 0xFFFFFFFF"


subsection \<open>Numbers\<close>

text \<open>
  A JavaScript number is an IEEE-754 binary64 value; it is modelled by its 64-bit pattern
  (sign, 11 exponent bits, 52 fraction bits), so that \<^verbatim>\<open>writeFloat64\<close> and \<^verbatim>\<open>readFloat64\<close> are
  the eight bytes of the pattern and no rounding is ever needed: the codec only tests,
  truncates and compares numbers.
\<close>

type_synonym number = "64 word"

definition num_sign :: "number \<Rightarrow> bool" where
  "num_sign x = (2 ^ 63 \<le> unat x)"

definition num_exp :: "number \<Rightarrow> nat" where
  "num_exp x = (unat x div 2 ^ 52) mod 2 ^ 11"

definition num_frac :: "number \<Rightarrow> nat" where
  "num_frac x = unat x mod 2 ^ 52"

definition num_mag :: "number \<Rightarrow> nat" where
  "num_mag x = unat x mod 2 ^ 63"

definition isNaN :: "number \<Rightarrow> bool" where
  "isNaN x = (num_exp x = 2047 \<and> num_frac x \<noteq> 0)"

text \<open>The integer part of the magnitude of a finite number (0 for NaN and the infinities,
  as in the ToInt32 and ToUint32 conversions).\<close>

definition num_trunc_mag :: "number \<Rightarrow> nat" where
  "num_trunc_mag x =
     (let e = num_exp x; m = 2 ^ 52 + num_frac x in
      if e = 2047 \<or> e = 0 then 0
      else if 1075 \<le> e then m * 2 ^ (e - 1075)
      else m div 2 ^ (1075 - e))"

definition js_trunc :: "number \<Rightarrow> int" where
  "js_trunc x = (if num_sign x then - int (num_trunc_mag x) else int (num_trunc_mag x))"

text \<open>\<^verbatim>\<open>value | 0\<close> and \<^verbatim>\<open>value >>> 0\<close> yield the same 32 bits, read signed and unsigned.\<close>

definition ToInt32 :: "number \<Rightarrow> 32 word" where
  "ToInt32 x = word_of_int (js_trunc x)"

text \<open>The number that an integer converts to (exact for magnitudes below \<open>2 ^ 53\<close>; the
  codec converts 32-bit integers only): \<open>int_mag\<close> gives the exponent and fraction bits of
  a magnitude, normalised so that its leading bit is the implicit one.\<close>

definition int_mag :: "nat \<Rightarrow> nat" where
  "int_mag a =
     (if a = 0 then 0
      else let p = floorlog 2 a - 1 in (1022 + p) * 2 ^ 52 + a * 2 ^ (52 - p))"

definition int_num :: "int \<Rightarrow> number" where
  "int_num k = word_of_nat ((if k < 0 then 2 ^ 63 else 0) + int_mag (nat \<bar>k\<bar>))"

text \<open>\<^verbatim>\<open>===\<close> and \<^verbatim>\<open><=\<close> on numbers: NaN compares false with everything, the two zeros are
  equal, and otherwise the order is that of sign and magnitude bits.\<close>

definition num_key :: "number \<Rightarrow> int" where
  "num_key x = (if num_sign x then - int (num_mag x) else int (num_mag x))"

definition num_strict_eq :: "number \<Rightarrow> number \<Rightarrow> bool" where
  "num_strict_eq x y = (\<not> isNaN x \<and> \<not> isNaN y \<and> num_key x = num_key y)"

definition num_le :: "number \<Rightarrow> number \<Rightarrow> bool" where
  "num_le x y = (\<not> isNaN x \<and> \<not> isNaN y \<and> num_key x \<le> num_key y)"

subsection \<open>Tags and options\<close>

definition TAG_BOOLEAN_FALSE :: byte where [simp]: "TAG_BOOLEAN_FALSE = 0x00"
definition TAG_BOOLEAN_TRUE :: byte where [simp]: "TAG_BOOLEAN_TRUE = 0x01"
definition TAG_INT8 :: byte where [simp]: "TAG_INT8 = 0x02"
definition TAG_INT16 :: byte where [simp]: "TAG_INT16 = 0x03"
definition TAG_INT32 :: byte where [simp]: "TAG_INT32 = 0x04"
definition TAG_NULL :: byte where [simp]: "TAG_NULL = 0x05"
definition TAG_UNDEFINED :: byte where [simp]: "TAG_UNDEFINED = 0x06"
definition TAG_OBJECT_REF :: byte where [simp]: "TAG_OBJECT_REF = 0x07"
definition TAG_NUMBER :: byte where [simp]: "TAG_NUMBER = 0x09"
definition TAG_UINT8 :: byte where [simp]: "TAG_UINT8 = 0x12"
definition TAG_UINT16 :: byte where [simp]: "TAG_UINT16 = 0x13"
definition TAG_UINT32 :: byte where [simp]: "TAG_UINT32 = 0x14"
definition TAG_STRING_REF :: byte where [simp]: "TAG_STRING_REF = 0x16"
definition TAG_DATE :: byte where [simp]: "TAG_DATE = 0x20"
definition TAG_OBJECT :: byte where [simp]: "TAG_OBJECT = 0x30"
definition TAG_ARRAY :: byte where [simp]: "TAG_ARRAY = 0x31"
definition TAG_UINT8ARRAY :: byte where [simp]: "TAG_UINT8ARRAY = 0x32"

definition OPTION_CRC32 :: byte where [simp]: "OPTION_CRC32 = 0x80"
definition OPTION_NOCYCLE :: byte where [simp]: "OPTION_NOCYCLE = 0x40"
definition MAJOR_VERSION :: byte where [simp]: "MAJOR_VERSION = 1"

text \<open>\<^verbatim>\<open>getNumberTag\<close>, test by test.\<close>

definition getNumberTag :: "number \<Rightarrow> byte" where
  "getNumberTag v =
     (if num_strict_eq v (int_num (uint (ToInt32 v))) then
        (if num_strict_eq (int_num (sint (ToInt32 v AND 0xFF))) v then TAG_UINT8
         else if num_strict_eq (int_num (sint (ToInt32 v AND 0xFFFF))) v then TAG_UINT16
         else TAG_UINT32)
      else if num_strict_eq v (int_num (sint (ToInt32 v))) then
        (if num_le (int_num (- 128)) v \<and> num_le v (int_num 127) then TAG_INT8
         else if num_le (int_num (- 32768)) v \<and> num_le v (int_num 32767) then TAG_INT16
         else TAG_INT32)
      else TAG_NUMBER)"


section \<open>Values\<close>

text \<open>
  The value universe of the codec.  Arrays and objects carry identity: a value refers to
  them by address (\<open>JRef\<close>) into a heap of containers, so that sharing and cycles can be
  expressed.  An object is the list of its own enumerable properties in the order of
  \<^verbatim>\<open>Object.keys\<close>.  Strings are sequences of 8-bit characters, the UTF-8 form that
  \<^verbatim>\<open>encode_utf8\<close> and \<^verbatim>\<open>decode_utf8\<close> translate to and from; both are the identity on
  this representation.  Functions are outside the universe, so the \<^verbatim>\<open>toJSON\<close> branch of
  \<^verbatim>\<open>serializeObject\<close> is never taken and its key filter keeps every key.
\<close>

type_synonym addr = nat

datatype jsval =
    JUndefined
  | JNull
  | JBool bool
  | JNumber number
  | JString string
  | JDate number
  | JBytes "byte list"
  | JRef addr

datatype container = JObject "(string \<times> jsval) list" | JArray "jsval list"

type_synonym heap = "container list"

section \<open>The byte stream (DataStream)\<close>

text \<open>
  Modelled from the spec: the byte-stream utility (\<^verbatim>\<open>DataStream.js\<close>) is not among the
  sources.  The spec describes it as a sequential big-endian reader/writer over a growable
  buffer with typed integer and float primitives, NUL-terminated string read/write and raw
  byte-array read/write, raising \<^verbatim>\<open>Truncated\<close> on underflow.  The writer is the list of
  bytes written so far (its position is the length of the list).
\<close>

definition be16 :: "16 word \<Rightarrow> byte list" where
  "be16 w = [ucast (drop_bit 8 w), ucast w]"

definition be32 :: "32 word \<Rightarrow> byte list" where
  "be32 w = [ucast (drop_bit 24 w), ucast (drop_bit 16 w), ucast (drop_bit 8 w), ucast w]"

definition be64 :: "64 word \<Rightarrow> byte list" where
  "be64 w = [ucast (drop_bit 56 w), ucast (drop_bit 48 w), ucast (drop_bit 40 w),
             ucast (drop_bit 32 w), ucast (drop_bit 24 w), ucast (drop_bit 16 w),
             ucast (drop_bit 8 w), ucast w]"

definition rd16 :: "byte list \<Rightarrow> 16 word" where
  "rd16 bs = push_bit 8 (ucast (bs ! 0)) OR ucast (bs ! 1)"

definition rd32 :: "byte list \<Rightarrow> 32 word" where
  "rd32 bs = push_bit 24 (ucast (bs ! 0)) OR push_bit 16 (ucast (bs ! 1)) OR
             push_bit 8 (ucast (bs ! 2)) OR ucast (bs ! 3)"

definition rd64 :: "byte list \<Rightarrow> 64 word" where
  "rd64 bs = push_bit 56 (ucast (bs ! 0)) OR push_bit 48 (ucast (bs ! 1)) OR
             push_bit 40 (ucast (bs ! 2)) OR push_bit 32 (ucast (bs ! 3)) OR
             push_bit 24 (ucast (bs ! 4)) OR push_bit 16 (ucast (bs ! 5)) OR
             push_bit 8 (ucast (bs ! 6)) OR ucast (bs ! 7)"

definition writeCString :: "string \<Rightarrow> byte list" where
  "writeCString s = map of_char s @ [0]"

section \<open>Encoder\<close>

record encoder =
  ds :: "byte list"
  object_refs :: "addr \<rightharpoonup> nat"
  string_keys :: "(string \<times> nat) list"
  string_refs :: "(string \<times> nat) list"
  hasCycle :: bool

definition new_Encoder :: encoder where
  "new_Encoder = \<lparr>ds = [], object_refs = Map.empty, string_keys = [], string_refs = [],
                   hasCycle = False\<rparr>"

definition emit :: "byte list \<Rightarrow> encoder \<Rightarrow> encoder" where
  "emit bs e = e\<lparr>ds := ds e @ bs\<rparr>"

text \<open>\<^verbatim>\<open>getValueTag\<close>.  A reference that points outside the heap is no value of the program
  and is treated like an unsupported type.\<close>

fun getValueTag :: "heap \<Rightarrow> jsval \<Rightarrow> error + byte" where
  "getValueTag h JUndefined = Inr TAG_UNDEFINED"
| "getValueTag h JNull = Inr TAG_NULL"
| "getValueTag h (JRef a) =
     (if a < length h then
        (case h ! a of JArray xs \<Rightarrow> Inr TAG_ARRAY | JObject kvs \<Rightarrow> Inr TAG_OBJECT)
      else Inl UnsupportedType)"
| "getValueTag h (JDate d) = Inr TAG_DATE"
| "getValueTag h (JBytes bs) = Inr TAG_UINT8ARRAY"
| "getValueTag h (JNumber x) = Inr (getNumberTag x)"
| "getValueTag h (JString s) = Inr TAG_STRING_REF"
| "getValueTag h (JBool b) = Inr (if b then TAG_BOOLEAN_TRUE else TAG_BOOLEAN_FALSE)"

definition serializeCount :: "int \<Rightarrow> encoder \<Rightarrow> error + encoder" where
  "serializeCount v e =
     (case serializeCount_bytes v of Inl err \<Rightarrow> Inl err | Inr bs \<Rightarrow> Inr (emit bs e))"

text \<open>\<^verbatim>\<open>serializeNumber\<close>: the typed writes convert the number to the integer width
  (\<^verbatim>\<open>DataView.setInt8\<close> and its siblings take the value modulo the width).\<close>

definition serializeNumber :: "number \<Rightarrow> byte \<Rightarrow> encoder \<Rightarrow> encoder" where
  "serializeNumber v tag e =
     (if tag = TAG_INT8 then emit [ucast (ToInt32 v)] e
      else if tag = TAG_INT16 then emit (be16 (ucast (ToInt32 v))) e
      else if tag = TAG_INT32 then emit (be32 (ToInt32 v)) e
      else if tag = TAG_UINT8 then emit [ucast (ToInt32 v)] e
      else if tag = TAG_UINT16 then emit (be16 (ucast (ToInt32 v))) e
      else if tag = TAG_UINT32 then emit (be32 (ToInt32 v)) e
      else emit (be64 v) e)"

definition serializeString :: "string \<Rightarrow> encoder \<Rightarrow> error + encoder" where
  "serializeString s e =
     (if s = [] then serializeCount 0 e
      else case map_of (string_refs e) s of
             Some index \<Rightarrow> serializeCount (int index) e
           | None \<Rightarrow>
               (let index = length (string_refs e) + 1
                in serializeCount (int index) (e\<lparr>string_refs := string_refs e @ [(s, index)]\<rparr>)))"

definition serializeDate :: "number \<Rightarrow> encoder \<Rightarrow> encoder" where
  "serializeDate d e = emit (be64 d) e"

text \<open>\<^verbatim>\<open>serializeComponentPart\<close> for the values that are not containers; the tag is the one
  \<^verbatim>\<open>getValueTag\<close> gave for the value, so the \<^verbatim>\<open>default\<close> branch is not reached.  The missing
  \<^verbatim>\<open>break\<close> after the byte-array case falls through to a case that does nothing.\<close>

fun serializeComponentPart :: "jsval \<Rightarrow> byte \<Rightarrow> encoder \<Rightarrow> error + encoder" where
  "serializeComponentPart (JNumber x) tag e = Inr (serializeNumber x tag e)"
| "serializeComponentPart (JString s) tag e = serializeString s e"
| "serializeComponentPart (JDate d) tag e = Inr (serializeDate d e)"
| "serializeComponentPart (JBytes bs) tag e =
     (case serializeCount (int (length bs)) e of Inl err \<Rightarrow> Inl err
      | Inr e' \<Rightarrow> Inr (emit bs e'))"
| "serializeComponentPart v tag e = Inr e"

text \<open>
  \<^verbatim>\<open>serializeComponent\<close>, \<^verbatim>\<open>serializeObject\<close> and \<^verbatim>\<open>serializeArray\<close>, with the two loops over
  the properties and the elements.  The first argument bounds the nesting depth of the
  recursion: the source recurses once per container that is not yet registered, so a
  bound above the number of containers of the heap is never reached.
\<close>


function (sequential) serializeComponent :: "nat \<Rightarrow> heap \<Rightarrow> jsval \<Rightarrow> encoder \<Rightarrow> error + encoder"
  and serializeObject :: "nat \<Rightarrow> heap \<Rightarrow> addr \<Rightarrow> encoder \<Rightarrow> error + encoder"
  and serializeArray :: "nat \<Rightarrow> heap \<Rightarrow> addr \<Rightarrow> encoder \<Rightarrow> error + encoder"
  and serializeProps :: "nat \<Rightarrow> heap \<Rightarrow> (string \<times> jsval) list \<Rightarrow> encoder \<Rightarrow> error + encoder"
  and serializeElems :: "nat \<Rightarrow> heap \<Rightarrow> jsval list \<Rightarrow> encoder \<Rightarrow> error + encoder"
where
  "serializeComponent 0 h obj e = Inl OutOfFuel"
| "serializeComponent (Suc n) h obj e =
     (case getValueTag h obj of
        Inl err \<Rightarrow> Inl err
      | Inr tag \<Rightarrow>
          if tag = TAG_OBJECT then serializeObject n h (case obj of JRef a \<Rightarrow> a | _ \<Rightarrow> 0) e
          else if tag = TAG_ARRAY then serializeArray n h (case obj of JRef a \<Rightarrow> a | _ \<Rightarrow> 0) e
          else serializeComponentPart obj tag (emit [tag] e))"
| "serializeObject n h a e =
     (case object_refs e a of
        None \<Rightarrow>
          (let e1 = e\<lparr>object_refs := (object_refs e)(a \<mapsto> length (ds e))\<rparr>;
               e2 = emit [TAG_OBJECT] e1;
               keys = (case h ! a of JObject kvs \<Rightarrow> kvs | JArray xs \<Rightarrow> [])
           in case serializeCount (int (length keys)) e2 of
                Inl err \<Rightarrow> Inl err
              | Inr e3 \<Rightarrow> serializeProps n h keys e3)
      | Some refindex \<Rightarrow>
          (case serializeCount (int refindex) (emit [TAG_OBJECT_REF] e) of
             Inl err \<Rightarrow> Inl err
           | Inr e' \<Rightarrow> Inr (e'\<lparr>hasCycle := True\<rparr>)))"
| "serializeArray n h a e =
     (case object_refs e a of
        None \<Rightarrow>
          (let e1 = e\<lparr>object_refs := (object_refs e)(a \<mapsto> length (ds e))\<rparr>;
               e2 = emit [TAG_ARRAY] e1;
               array = (case h ! a of JArray xs \<Rightarrow> xs | JObject kvs \<Rightarrow> [])
           in case serializeCount (int (length array)) e2 of
                Inl err \<Rightarrow> Inl err
              | Inr e3 \<Rightarrow> serializeElems n h array e3)
      | Some refindex \<Rightarrow>
          (case serializeCount (int refindex) (emit [TAG_OBJECT_REF] e) of
             Inl err \<Rightarrow> Inl err
           | Inr e' \<Rightarrow> Inr (e'\<lparr>hasCycle := True\<rparr>)))"
| "serializeProps n h [] e = Inr e"
| "serializeProps n h ((k, v) # kvs) e =
     (let (index, e1) =
            (case map_of (string_keys e) k of
               Some index \<Rightarrow> (index, e)
             | None \<Rightarrow> (length (string_keys e),
                         e\<lparr>string_keys := string_keys e @ [(k, length (string_keys e))]\<rparr>))
      in case serializeCount (int index) e1 of
           Inl err \<Rightarrow> Inl err
         | Inr e2 \<Rightarrow>
             (case serializeComponent n h v e2 of
                Inl err \<Rightarrow> Inl err
              | Inr e3 \<Rightarrow> serializeProps n h kvs e3))"
| "serializeElems n h [] e = Inr e"
| "serializeElems n h (x # xs) e =
     (case serializeComponent n h x e of
        Inl err \<Rightarrow> Inl err
      | Inr e' \<Rightarrow> serializeElems n h xs e')"
  by pat_completeness auto
termination
  by (relation "measures [
     case_sum (case_sum (\<lambda>(n,h,obj,e). 3 * n) (\<lambda>(n,h,a,e). 3 * n + 2))
       (case_sum (\<lambda>(n,h,a,e). 3 * n + 2)
          (case_sum (\<lambda>(n,h,kvs,e). 3 * n + 1) (\<lambda>(n,h,xs,e). 3 * n + 1))),
     case_sum (case_sum (\<lambda>_. 0) (\<lambda>_. 0))
       (case_sum (\<lambda>_. 0)
          (case_sum (\<lambda>(n,h,kvs,e). length kvs) (\<lambda>(n,h,xs,e). length xs)))]") auto

text \<open>
  \<^verbatim>\<open>serializeTOS\<close>: the header byte, the optional CRC-32 of the payload, the two tables of
  strings, and the payload after them.
\<close>

definition serializeTOS :: "bool \<Rightarrow> encoder \<Rightarrow> error + byte list" where
  "serializeTOS hasCRC e =
     (let v = MAJOR_VERSION OR (if \<not> hasCycle e then OPTION_NOCYCLE else 0);
          header = (if hasCRC then [v OR OPTION_CRC32] @ be32 (crc32 (ds e)) else [v])
      in case serializeCount_bytes (int (length (string_keys e))) of
           Inl err \<Rightarrow> Inl err
         | Inr kc \<Rightarrow>
             (case serializeCount_bytes (int (length (string_refs e))) of
                Inl err \<Rightarrow> Inl err
              | Inr rc \<Rightarrow>
                  Inr (header @ kc @ concat (map (\<lambda>(key, index). writeCString key) (string_keys e))
                       @ rc @ concat (map (\<lambda>(key, index). writeCString key) (string_refs e))
                       @ ds e)))"

text \<open>\<^verbatim>\<open>encode\<close>: the value is \<open>obj\<close> in the heap \<open>h\<close>; \<open>hasCRC\<close> is the option.\<close>

definition encode :: "heap \<Rightarrow> jsval \<Rightarrow> bool \<Rightarrow> error + byte list" where
  "encode h obj hasCRC =
     (case serializeComponent (Suc (length h)) h obj new_Encoder of
        Inl err \<Rightarrow> Inl err
      | Inr e \<Rightarrow> serializeTOS hasCRC e)"

section \<open>Decoder\<close>

text \<open>
  The decoder's state: the stream (buffer and cursor), the three maps, the flag, the
  payload offset, and the heap in which the decoded containers are allocated.  The tables
  are maps from the indices \<open>0 .. size - 1\<close>, kept as lists.
\<close>

record decoder =
  d_buffer :: "byte list"
  d_position :: nat
  d_object_refs :: "int \<rightharpoonup> addr"
  d_string_keys :: "string list"
  d_string_refs :: "string list"
  d_hasCycle :: bool
  d_offset :: nat
  d_heap :: heap

definition new_Decoder :: "byte list \<Rightarrow> decoder" where
  "new_Decoder b = \<lparr>d_buffer = b, d_position = 0, d_object_refs = Map.empty,
                     d_string_keys = [], d_string_refs = [], d_hasCycle = True,
                     d_offset = 0, d_heap = []\<rparr>"

text \<open>Modelled from the spec: the reading primitives of the byte stream.\<close>

definition remaining :: "decoder \<Rightarrow> byte list" where
  "remaining st = drop (d_position st) (d_buffer st)"

definition advance :: "nat \<Rightarrow> decoder \<Rightarrow> decoder" where
  "advance n st = st\<lparr>d_position := d_position st + n\<rparr>"

definition readUint8 :: "decoder \<Rightarrow> error + (byte \<times> decoder)" where
  "readUint8 st = (case remaining st of [] \<Rightarrow> Inl Truncated | b # bs \<Rightarrow> Inr (b, advance 1 st))"

definition readBytes :: "nat \<Rightarrow> decoder \<Rightarrow> error + (byte list \<times> decoder)" where
  "readBytes n st =
     (if n \<le> length (remaining st) then Inr (take n (remaining st), advance n st)
      else Inl Truncated)"

definition readCString :: "decoder \<Rightarrow> error + (string \<times> decoder)" where
  "readCString st =
     (let s = takeWhile (\<lambda>b. b \<noteq> 0) (remaining st)
      in if length s < length (remaining st)
         then Inr (map (\<lambda>b. char_of (unat b)) s, advance (length s + 1) st)
         else Inl Truncated)"

text \<open>\<^verbatim>\<open>readUint8Array(size)\<close> with the count the decoder read, which can be negative.\<close>

definition readUint8Array :: "int \<Rightarrow> decoder \<Rightarrow> error + (byte list \<times> decoder)" where
  "readUint8Array sz st = (if sz < 0 then Inl Truncated else readBytes (nat sz) st)"

definition unserializeCount :: "decoder \<Rightarrow> error + (int \<times> decoder)" where
  "unserializeCount st =
     (case unserializeCount_bytes (remaining st) of
        None \<Rightarrow> Inl Truncated
      | Some (v, n) \<Rightarrow> Inr (v, advance n st))"

text \<open>\<^verbatim>\<open>unserializeString\<close>: a negative index passes the bound check and
  \<^verbatim>\<open>Map.prototype.get\<close> gives \<^verbatim>\<open>undefined\<close> for it.\<close>

definition unserializeString :: "decoder \<Rightarrow> error + (jsval \<times> decoder)" where
  "unserializeString st =
     (case unserializeCount st of
        Inl err \<Rightarrow> Inl err
      | Inr (index, st') \<Rightarrow>
          if index = 0 then Inr (JString [], st')
          else if index > int (length (d_string_refs st')) then Inl OutOfBoundString
          else if index < 1 then Inr (JUndefined, st')
          else Inr (JString (d_string_refs st' ! nat (index - 1)), st'))"

text \<open>The numeric reads of \<^verbatim>\<open>unserializeComponentPart\<close> and \<^verbatim>\<open>unserializeDate\<close>.\<close>

definition readNumber :: "byte \<Rightarrow> decoder \<Rightarrow> error + (number \<times> decoder)" where
  "readNumber tag st =
     (if tag = TAG_NUMBER then
        (case readBytes 8 st of Inl err \<Rightarrow> Inl err | Inr (bs, st') \<Rightarrow> Inr (rd64 bs, st'))
      else if tag = TAG_INT8 then
        (case readBytes 1 st of Inl err \<Rightarrow> Inl err
         | Inr (bs, st') \<Rightarrow> Inr (int_num (sint (bs ! 0)), st'))
      else if tag = TAG_INT16 then
        (case readBytes 2 st of Inl err \<Rightarrow> Inl err
         | Inr (bs, st') \<Rightarrow> Inr (int_num (sint (rd16 bs)), st'))
      else if tag = TAG_INT32 then
        (case readBytes 4 st of Inl err \<Rightarrow> Inl err
         | Inr (bs, st') \<Rightarrow> Inr (int_num (sint (rd32 bs)), st'))
      else if tag = TAG_UINT8 then
        (case readBytes 1 st of Inl err \<Rightarrow> Inl err
         | Inr (bs, st') \<Rightarrow> Inr (int_num (uint (bs ! 0)), st'))
      else if tag = TAG_UINT16 then
        (case readBytes 2 st of Inl err \<Rightarrow> Inl err
         | Inr (bs, st') \<Rightarrow> Inr (int_num (uint (rd16 bs)), st'))
      else
        (case readBytes 4 st of Inl err \<Rightarrow> Inl err
         | Inr (bs, st') \<Rightarrow> Inr (int_num (uint (rd32 bs)), st')))"

definition unserializeDate :: "decoder \<Rightarrow> error + (jsval \<times> decoder)" where
  "unserializeDate st =
     (case readBytes 8 st of Inl err \<Rightarrow> Inl err | Inr (bs, st') \<Rightarrow> Inr (JDate (rd64 bs), st'))"

text \<open>Property assignment \<^verbatim>\<open>obj[key] = v\<close> and element assignment \<^verbatim>\<open>arr[i] = v\<close> on a heap
  cell (an index past the end extends the array).\<close>

definition obj_set :: "string \<Rightarrow> jsval \<Rightarrow> container \<Rightarrow> container" where
  "obj_set key v c = (case c of JObject kvs \<Rightarrow> JObject (AList.update key v kvs) | JArray xs \<Rightarrow> c)"

definition arr_set :: "nat \<Rightarrow> jsval \<Rightarrow> container \<Rightarrow> container" where
  "arr_set i v c =
     (case c of
        JArray xs \<Rightarrow>
          JArray (if i < length xs then xs[i := v]
                  else xs @ replicate (i - length xs) JUndefined @ [v])
      | JObject kvs \<Rightarrow> c)"

definition heap_update :: "addr \<Rightarrow> (container \<Rightarrow> container) \<Rightarrow> decoder \<Rightarrow> decoder" where
  "heap_update a f st = st\<lparr>d_heap := (d_heap st)[a := f (d_heap st ! a)]\<rparr>"

definition allocate :: "container \<Rightarrow> decoder \<Rightarrow> addr \<times> decoder" where
  "allocate c st = (length (d_heap st), st\<lparr>d_heap := d_heap st @ [c]\<rparr>)"

definition register :: "addr \<Rightarrow> decoder \<Rightarrow> decoder" where
  "register a st =
     (if d_hasCycle st
      then st\<lparr>d_object_refs := (d_object_refs st)(int (d_position st) - 1 \<mapsto> a)\<rparr>
      else st)"

text \<open>
  \<^verbatim>\<open>unserializeComponent\<close>, \<^verbatim>\<open>unserializeComponentPart\<close>, \<^verbatim>\<open>unserializeObject\<close>,
  \<^verbatim>\<open>unserializeArray\<close> and the two \<^verbatim>\<open>while\<close> loops.  The first argument bounds the nesting
  depth: every level reads at least its tag byte, so a bound above the length of the
  buffer is never reached.
\<close>

function (sequential)
      unserializeComponent :: "nat \<Rightarrow> decoder \<Rightarrow> error + (jsval \<times> decoder)"
  and unserializeComponentPart :: "nat \<Rightarrow> byte \<Rightarrow> decoder \<Rightarrow> error + (jsval \<times> decoder)"
  and unserializeObject :: "nat \<Rightarrow> decoder \<Rightarrow> error + (jsval \<times> decoder)"
  and unserializeArray :: "nat \<Rightarrow> decoder \<Rightarrow> error + (jsval \<times> decoder)"
  and unserializeProps :: "nat \<Rightarrow> addr \<Rightarrow> nat \<Rightarrow> decoder \<Rightarrow> error + decoder"
  and unserializeElems :: "nat \<Rightarrow> addr \<Rightarrow> nat \<Rightarrow> nat \<Rightarrow> decoder \<Rightarrow> error + decoder"
where
  "unserializeComponent 0 st = Inl OutOfFuel"
| "unserializeComponent (Suc n) st =
     (case readUint8 st of
        Inl err \<Rightarrow> Inl err
      | Inr (tag, st') \<Rightarrow> unserializeComponentPart n tag st')"
| "unserializeComponentPart n tag st =
     (if tag = TAG_NUMBER \<or> tag = TAG_INT8 \<or> tag = TAG_INT16 \<or> tag = TAG_INT32 \<or>
         tag = TAG_UINT8 \<or> tag = TAG_UINT16 \<or> tag = TAG_UINT32 then
        (case readNumber tag st of Inl err \<Rightarrow> Inl err | Inr (x, st') \<Rightarrow> Inr (JNumber x, st'))
      else if tag = TAG_STRING_REF then unserializeString st
      else if tag = TAG_DATE then unserializeDate st
      else if tag = TAG_UINT8ARRAY then
        (case unserializeCount st of
           Inl err \<Rightarrow> Inl err
         | Inr (sz, st') \<Rightarrow>
             (case readUint8Array sz st' of
                Inl err \<Rightarrow> Inl err
              | Inr (bs, st'') \<Rightarrow> Inr (JBytes bs, st'')))
      else if tag = TAG_BOOLEAN_TRUE then Inr (JBool True, st)
      else if tag = TAG_BOOLEAN_FALSE then Inr (JBool False, st)
      else if tag = TAG_NULL then Inr (JNull, st)
      else if tag = TAG_UNDEFINED then Inr (JUndefined, st)
      else if tag = TAG_OBJECT then unserializeObject n st
      else if tag = TAG_ARRAY then unserializeArray n st
      else if tag = TAG_OBJECT_REF then
        (case unserializeCount st of
           Inl err \<Rightarrow> Inl err
         | Inr (c, st') \<Rightarrow>
             (case d_object_refs st' (c + int (d_offset st')) of
                Some refindex \<Rightarrow> Inr (JRef refindex, st')
              | None \<Rightarrow> Inl InvalidObjectReference))
      else Inl (UnexpectedTag tag))"
| "unserializeObject n st =
     (let (obj, st1) = allocate (JObject []) st;
          st2 = register obj st1
      in case unserializeCount st2 of
           Inl err \<Rightarrow> Inl err
         | Inr (sz, st3) \<Rightarrow>
             (case unserializeProps n obj (nat sz) st3 of
                Inl err \<Rightarrow> Inl err
              | Inr st4 \<Rightarrow> Inr (JRef obj, st4)))"
| "unserializeArray n st =
     (let (arr, st1) = allocate (JArray []) st;
          st2 = register arr st1
      in case unserializeCount st2 of
           Inl err \<Rightarrow> Inl err
         | Inr (sz, st3) \<Rightarrow>
             (case unserializeElems n arr 0 (nat sz) st3 of
                Inl err \<Rightarrow> Inl err
              | Inr st4 \<Rightarrow> Inr (JRef arr, st4)))"
| "unserializeProps n obj 0 st = Inr st"
| "unserializeProps n obj (Suc sz) st =
     (case unserializeCount st of
        Inl err \<Rightarrow> Inl err
      | Inr (index, st1) \<Rightarrow>
          if index \<ge> int (length (d_string_keys st1)) then Inl OutOfBoundProperty
          else
            (let key = (if index < 0 then ''undefined'' else d_string_keys st1 ! nat index)
             in case unserializeComponent n st1 of
                  Inl err \<Rightarrow> Inl err
                | Inr (v, st2) \<Rightarrow> unserializeProps n obj sz (heap_update obj (obj_set key v) st2)))"
| "unserializeElems n arr i 0 st = Inr st"
| "unserializeElems n arr i (Suc k) st =
     (case unserializeComponent n st of
        Inl err \<Rightarrow> Inl err
      | Inr (elem, st1) \<Rightarrow> unserializeElems n arr (i + 1) k (heap_update arr (arr_set i elem) st1))"
  by pat_completeness auto

termination
  by (relation "measures [
     case_sum
       (case_sum (\<lambda>(n,st). 4 * n)
          (case_sum (\<lambda>(n,tag,st). 4 * n + 3) (\<lambda>(n,st). 4 * n + 2)))
       (case_sum (\<lambda>(n,st). 4 * n + 2)
          (case_sum (\<lambda>(n,obj,sz,st). 4 * n + 1) (\<lambda>(n,arr,i,k,st). 4 * n + 1))),
     case_sum
       (case_sum (\<lambda>x. 0) (case_sum (\<lambda>x. 0) (\<lambda>x. 0)))
       (case_sum (\<lambda>x. 0)
          (case_sum (\<lambda>(n,obj,sz,st). sz) (\<lambda>(n,arr,i,k,st). k)))]") auto


text \<open>The loop of \<^verbatim>\<open>unserializeTOS\<close> that reads one table of strings.\<close>

fun readTable :: "nat \<Rightarrow> decoder \<Rightarrow> error + (string list \<times> decoder)" where
  "readTable 0 st = Inr ([], st)"
| "readTable (Suc k) st =
     (case readCString st of
        Inl err \<Rightarrow> Inl err
      | Inr (s, st') \<Rightarrow>
          (case readTable k st' of
             Inl err \<Rightarrow> Inl err
           | Inr (ss, st'') \<Rightarrow> Inr (s # ss, st'')))"

definition unserializeTOS :: "decoder \<Rightarrow> error + decoder" where
  "unserializeTOS st =
     (case readUint8 st of
        Inl err \<Rightarrow> Inl err
      | Inr (version, st1) \<Rightarrow>
          if (version AND 0x0F) > MAJOR_VERSION then Inl VersionMismatch
          else
            (case (if version AND OPTION_CRC32 \<noteq> 0
                   then (case readBytes 4 st1 of
                           Inl err \<Rightarrow> Inl err
                         | Inr (bs, st2) \<Rightarrow> Inr (rd32 bs, st2))
                   else Inr (0, st1)) of
               Inl err \<Rightarrow> Inl err
             | Inr (crc, st2) \<Rightarrow>
                 (let st3 = (if version AND OPTION_NOCYCLE \<noteq> 0
                             then st2\<lparr>d_hasCycle := False\<rparr> else st2)
                  in case unserializeCount st3 of
                       Inl err \<Rightarrow> Inl err
                     | Inr (sz, st4) \<Rightarrow>
                         (case readTable (nat sz) st4 of
                            Inl err \<Rightarrow> Inl err
                          | Inr (keys, st5) \<Rightarrow>
                              (case unserializeCount (st5\<lparr>d_string_keys := keys\<rparr>) of
                                 Inl err \<Rightarrow> Inl err
                               | Inr (sz', st6) \<Rightarrow>
                                   (case readTable (nat sz') st6 of
                                      Inl err \<Rightarrow> Inl err
                                    | Inr (strs, st7) \<Rightarrow>
                                        (let st8 = st7\<lparr>d_string_refs := strs\<rparr>
                                         in if version AND OPTION_CRC32 \<noteq> 0
                                               \<and> crc32 (remaining st8) \<noteq> crc
                                            then Inl ChecksumMismatch
                                            else Inr st8)))))))"

text \<open>\<^verbatim>\<open>Decoder.prototype.decode\<close>, and below it the exported \<^verbatim>\<open>decode\<close> with its guard.\<close>

definition Decoder_decode :: "decoder \<Rightarrow> error + (jsval \<times> decoder)" where
  "Decoder_decode st =
     (case unserializeTOS st of
        Inl err \<Rightarrow> Inl err
      | Inr st' \<Rightarrow>
          unserializeComponent (Suc (length (d_buffer st'))) (st'\<lparr>d_offset := d_position st'\<rparr>))"

text \<open>
  The argument of \<^verbatim>\<open>decode\<close>: \<^verbatim>\<open>undefined\<close>, \<^verbatim>\<open>null\<close>, an \<^verbatim>\<open>ArrayBuffer\<close> with its bytes, or any
  other value, given by the value of its \<^verbatim>\<open>buffer\<close> property (\<open>UndefinedInput\<close> when it has
  none, as for a number, a string or a plain object; an \<^verbatim>\<open>ArrayBuffer\<close> for a typed array or
  a \<^verbatim>\<open>DataView\<close>).
\<close>

datatype binary = UndefinedInput | NullInput | Buffer "byte list" | Object binary

definition instanceof_ArrayBuffer :: "binary \<Rightarrow> bool" where
  "instanceof_ArrayBuffer x = (case x of Buffer b \<Rightarrow> True | _ \<Rightarrow> False)"

definition buffer_prop :: "binary \<Rightarrow> binary" where
  "buffer_prop x = (case x of Object b \<Rightarrow> b | _ \<Rightarrow> UndefinedInput)"

text \<open>Modelled from the spec: the byte stream made by \<^verbatim>\<open>new DataStream(binary, 0, BIG_ENDIAN)\<close>
  (\<^verbatim>\<open>DataStream.js\<close> is not among the sources) reads the bytes of the buffer it is given, or
  of the buffer of the view it is given.\<close>

definition stream_bytes :: "binary \<Rightarrow> byte list" where
  "stream_bytes x = (case x of Buffer b \<Rightarrow> b | Object (Buffer b) \<Rightarrow> b | _ \<Rightarrow> [])"

definition decode :: "binary \<Rightarrow> error + (jsval \<times> heap)" where
  "decode binary =
     (if binary = UndefinedInput \<or> binary = NullInput \<or>
         \<not> (instanceof_ArrayBuffer binary \<or> instanceof_ArrayBuffer (buffer_prop binary))
      then Inl InvalidData
      else case Decoder_decode (new_Decoder (stream_bytes binary)) of
             Inl err \<Rightarrow> Inl err
           | Inr (v, st) \<Rightarrow> Inr (v, d_heap st))"


section \<open>Scenarios\<close>

text \<open>Property and element access, to state what a decoded graph looks like.\<close>

definition js_prop :: "heap \<Rightarrow> jsval \<Rightarrow> string \<Rightarrow> jsval" where
  "js_prop h v k =
     (case v of
        JRef a \<Rightarrow>
          (case h ! a of
             JObject kvs \<Rightarrow> (case map_of kvs k of Some x \<Rightarrow> x | None \<Rightarrow> JUndefined)
           | JArray xs \<Rightarrow> JUndefined)
      | _ \<Rightarrow> JUndefined)"

definition js_elem :: "heap \<Rightarrow> jsval \<Rightarrow> nat \<Rightarrow> jsval" where
  "js_elem h v i =
     (case v of
        JRef a \<Rightarrow>
          (case h ! a of
             JArray xs \<Rightarrow> (if i < length xs then xs ! i else JUndefined)
           | JObject kvs \<Rightarrow> JUndefined)
      | _ \<Rightarrow> JUndefined)"

text \<open>
  The cyclic value of the README and of scenario S4:
  \<^verbatim>\<open>o = {name: "o1", children: []}\<close>, \<^verbatim>\<open>p = {name: "o2", parent: o}\<close>, \<^verbatim>\<open>o.children.push(p)\<close>.
  Address 0 is \<^verbatim>\<open>o\<close>, address 1 its array of children, address 2 is \<^verbatim>\<open>p\<close>.
\<close>

definition s4_heap :: heap where
  "s4_heap = [JObject [(''name'', JString ''o1''), (''children'', JRef 1)],
              JArray [JRef 2],
              JObject [(''name'', JString ''o2''), (''parent'', JRef 0)]]"

text \<open>Its encoding: the header byte, the names \<^verbatim>\<open>name\<close>, \<^verbatim>\<open>children\<close>, \<^verbatim>\<open>parent\<close>, the strings
  \<^verbatim>\<open>o1\<close>, \<^verbatim>\<open>o2\<close>, and sixteen bytes of payload.\<close>

definition s4_bytes :: "byte list" where
  "s4_bytes =
     [0x01,
      0x03, 0x6E, 0x61, 0x6D, 0x65, 0x00, 0x63, 0x68, 0x69, 0x6C, 0x64, 0x72, 0x65, 0x6E, 0x00,
            0x70, 0x61, 0x72, 0x65, 0x6E, 0x74, 0x00,
      0x02, 0x6F, 0x31, 0x00, 0x6F, 0x32, 0x00,
      0x30, 0x02, 0x00, 0x16, 0x01, 0x01, 0x31, 0x01,
      0x30, 0x02, 0x00, 0x16, 0x02, 0x02, 0x07, 0x00]"

section \<open>References in a heap\<close>

text \<open>
  The addresses a value and a container refer to, in order, and those of a whole heap.
  In a \<open>forest\<close> no container is referred to twice, and every reference held by a
  container points to a container allocated after it: the heap then has neither a shared
  container nor a back-edge.
\<close>

fun refs_val :: "jsval \<Rightarrow> addr list" where
  "refs_val (JRef a) = [a]"
| "refs_val v = []"

fun refs_cell :: "container \<Rightarrow> addr list" where
  "refs_cell (JObject kvs) = concat (map (\<lambda>kv. refs_val (snd kv)) kvs)"
| "refs_cell (JArray xs) = concat (map refs_val xs)"

definition heap_refs :: "heap \<Rightarrow> addr list" where
  "heap_refs h = concat (map refs_cell h)"




section \<open>Values without shared containers\<close>

text \<open>
  A value in which no array and no object appears more than once is a tree.  \<open>root a t\<close>
  and \<open>cells a t\<close> lay the tree \<open>t\<close> out in a heap: its containers take the addresses from
  \<open>a\<close> on, each container before the containers of its children.
\<close>

datatype tval =
    TUndefined
  | TNull
  | TBool bool
  | TNumber number
  | TString string
  | TDate number
  | TBytes "byte list"
  | TArray "tval list"
  | TObject "(string \<times> tval) list"

fun csize :: "tval \<Rightarrow> nat"
  and csize_list :: "tval list \<Rightarrow> nat"
  and csize_props :: "(string \<times> tval) list \<Rightarrow> nat"
where
  "csize (TArray ts) = Suc (csize_list ts)"
| "csize (TObject kvs) = Suc (csize_props kvs)"
| "csize t = 0"
| "csize_list [] = 0"
| "csize_list (t # ts) = csize t + csize_list ts"
| "csize_props [] = 0"
| "csize_props ((k, t) # kvs) = csize t + csize_props kvs"

fun root :: "addr \<Rightarrow> tval \<Rightarrow> jsval" where
  "root a TUndefined = JUndefined"
| "root a TNull = JNull"
| "root a (TBool b) = JBool b"
| "root a (TNumber x) = JNumber x"
| "root a (TString s) = JString s"
| "root a (TDate d) = JDate d"
| "root a (TBytes bs) = JBytes bs"
| "root a (TArray ts) = JRef a"
| "root a (TObject kvs) = JRef a"

fun roots :: "addr \<Rightarrow> tval list \<Rightarrow> jsval list" where
  "roots a [] = []"
| "roots a (t # ts) = root a t # roots (a + csize t) ts"

fun rprops :: "addr \<Rightarrow> (string \<times> tval) list \<Rightarrow> (string \<times> jsval) list" where
  "rprops a [] = []"
| "rprops a ((k, t) # kvs) = (k, root a t) # rprops (a + csize t) kvs"

fun cells :: "addr \<Rightarrow> tval \<Rightarrow> heap"
  and cells_list :: "addr \<Rightarrow> tval list \<Rightarrow> heap"
  and cells_props :: "addr \<Rightarrow> (string \<times> tval) list \<Rightarrow> heap"
where
  "cells a (TArray ts) = JArray (roots (Suc a) ts) # cells_list (Suc a) ts"
| "cells a (TObject kvs) = JObject (rprops (Suc a) kvs) # cells_props (Suc a) kvs"
| "cells a t = []"
| "cells_list a [] = []"
| "cells_list a (t # ts) = cells a t @ cells_list (a + csize t) ts"
| "cells_props a [] = []"
| "cells_props a ((k, t) # kvs) = cells a t @ cells_props (a + csize t) kvs"

text \<open>The nesting depth of a value, and its size: one for every value and every property,
  and the number of bytes of a byte array.\<close>

fun depth :: "tval \<Rightarrow> nat"
  and depth_list :: "tval list \<Rightarrow> nat"
  and depth_props :: "(string \<times> tval) list \<Rightarrow> nat"
where
  "depth (TArray ts) = Suc (depth_list ts)"
| "depth (TObject kvs) = Suc (depth_props kvs)"
| "depth t = 1"
| "depth_list [] = 1"
| "depth_list (t # ts) = max (depth t) (depth_list ts)"
| "depth_props [] = 1"
| "depth_props ((k, t) # kvs) = max (depth t) (depth_props kvs)"

fun tsize :: "tval \<Rightarrow> nat"
  and tsize_list :: "tval list \<Rightarrow> nat"
  and tsize_props :: "(string \<times> tval) list \<Rightarrow> nat"
where
  "tsize (TArray ts) = Suc (tsize_list ts)"
| "tsize (TObject kvs) = Suc (tsize_props kvs)"
| "tsize (TBytes bs) = Suc (length bs)"
| "tsize t = 1"
| "tsize_list [] = 0"
| "tsize_list (t # ts) = tsize t + tsize_list ts"
| "tsize_props [] = 0"
| "tsize_props ((k, t) # kvs) = Suc (tsize t + tsize_props kvs)"

text \<open>The keys of an object are pairwise distinct.\<close>

fun proper :: "tval \<Rightarrow> bool"
  and proper_list :: "tval list \<Rightarrow> bool"
  and proper_props :: "(string \<times> tval) list \<Rightarrow> bool"
where
  "proper (TArray ts) = proper_list ts"
| "proper (TObject kvs) = (distinct (map fst kvs) \<and> proper_props kvs)"
| "proper t = True"
| "proper_list [] = True"
| "proper_list (t # ts) = (proper t \<and> proper_list ts)"
| "proper_props [] = True"
| "proper_props ((k, t) # kvs) = (proper t \<and> proper_props kvs)"

text \<open>The strings and the keys of a value; none of them may contain the character NUL
  for the tables of the encoding to be read back.\<close>

fun strings_of :: "tval \<Rightarrow> string list"
  and strings_of_list :: "tval list \<Rightarrow> string list"
  and strings_of_props :: "(string \<times> tval) list \<Rightarrow> string list"
where
  "strings_of (TString s) = [s]"
| "strings_of (TArray ts) = strings_of_list ts"
| "strings_of (TObject kvs) = strings_of_props kvs"
| "strings_of t = []"
| "strings_of_list [] = []"
| "strings_of_list (t # ts) = strings_of t @ strings_of_list ts"
| "strings_of_props [] = []"
| "strings_of_props ((k, t) # kvs) = k # strings_of t @ strings_of_props kvs"

definition nul_free_string :: "string \<Rightarrow> bool" where
  "nul_free_string s = (CHR 0x00 \<notin> set s)"

definition nul_free :: "tval \<Rightarrow> bool" where
  "nul_free t = list_all nul_free_string (strings_of t)"

text \<open>What a value is read back as: the number \<open>-0\<close> is written as the integer 0.\<close>

definition canon_number :: "number \<Rightarrow> number" where
  "canon_number x = (if x = 0x8000000000000000 then 0 else x)"

fun canon :: "tval \<Rightarrow> tval"
  and canon_list :: "tval list \<Rightarrow> tval list"
  and canon_props :: "(string \<times> tval) list \<Rightarrow> (string \<times> tval) list"
where
  "canon (TNumber x) = TNumber (canon_number x)"
| "canon (TArray ts) = TArray (canon_list ts)"
| "canon (TObject kvs) = TObject (canon_props kvs)"
| "canon t = t"
| "canon_list [] = []"
| "canon_list (t # ts) = canon t # canon_list ts"
| "canon_props [] = []"
| "canon_props ((k, t) # kvs) = (k, canon t) # canon_props kvs"


section \<open>Specification of the round trip\<close>

text \<open>
  The statements used to prove the round trip by induction on the value.  \<open>holds_at h a cs\<close>:
  the heap \<open>h\<close> holds the containers \<open>cs\<close> from address \<open>a\<close> on.  \<open>starts K xs\<close>: the list \<open>K\<close>
  begins with \<open>xs\<close>.  \<open>tables_ok\<close>: the two tables of the encoder number their
  entries as the encoder assigns the indices (names from 0, strings from 1).
\<close>

definition holds_at :: "heap \<Rightarrow> addr \<Rightarrow> heap \<Rightarrow> bool" where
  "holds_at h a cs = (take (length cs) (drop a h) = cs)"

definition starts :: "'a list \<Rightarrow> 'a list \<Rightarrow> bool" where
  "starts K xs = (take (length xs) K = xs)"

definition tables_ok :: "encoder \<Rightarrow> bool" where
  "tables_ok e =
     (map snd (string_keys e) = [0..<length (string_keys e)] \<and>
      map snd (string_refs e) = map Suc [0..<length (string_refs e)])"

text \<open>What the encoder may assume before it writes a value whose containers are \<open>cs\<close> at
  \<open>a\<close> (none of them registered yet, \<open>k\<close> bounds the growth of the tables), and how its
  state \<open>e'\<close> afterwards extends the state \<open>e\<close> before.\<close>

definition enc_pre :: "heap \<Rightarrow> addr \<Rightarrow> heap \<Rightarrow> nat \<Rightarrow> encoder \<Rightarrow> bool" where
  "enc_pre h a cs k e =
     (holds_at h a cs \<and>
      (\<forall>i. a \<le> i \<and> i < a + length cs \<longrightarrow> object_refs e i = None) \<and>
      tables_ok e \<and>
      length (string_keys e) + k < 2 ^ 31 \<and> length (string_refs e) + k < 2 ^ 31)"

definition extends :: "encoder \<Rightarrow> encoder \<Rightarrow> nat \<Rightarrow> string set \<Rightarrow> addr \<Rightarrow> nat \<Rightarrow> bool" where
  "extends e e' k S a c =
     (tables_ok e' \<and> hasCycle e' = hasCycle e \<and>
      (\<exists>ks. string_keys e' = string_keys e @ ks \<and> length ks \<le> k \<and> fst ` set ks \<subseteq> S) \<and>
      (\<exists>rs. string_refs e' = string_refs e @ rs \<and> length rs \<le> k \<and> fst ` set rs \<subseteq> S) \<and>
      (\<forall>i. (object_refs e' i = None) = (object_refs e i = None \<and> (i < a \<or> a + c \<le> i))))"

text \<open>The decoder reads the bytes \<open>bs\<close> as the value \<open>t\<close>, allocating its containers at the
  end of the heap; the same for the elements of an array and the properties of an object
  that are still to be read.\<close>

definition decodes :: "string list \<Rightarrow> string list \<Rightarrow> byte list \<Rightarrow> tval \<Rightarrow> bool" where
  "decodes K R bs t =
     (\<forall>st rest m.
        remaining st = bs @ rest \<and> d_string_keys st = K \<and> d_string_refs st = R \<and> depth t \<le> m \<longrightarrow>
        (\<exists>st'. unserializeComponent m st = Inr (root (length (d_heap st)) t, st') \<and>
               remaining st' = rest \<and> d_string_keys st' = K \<and> d_string_refs st' = R \<and>
               d_heap st' = d_heap st @ cells (length (d_heap st)) t))"

definition decodes_elems :: "string list \<Rightarrow> string list \<Rightarrow> byte list \<Rightarrow> tval list \<Rightarrow> bool" where
  "decodes_elems K R bs ts =
     (\<forall>st rest m H0 acc Cs.
        remaining st = bs @ rest \<and> d_string_keys st = K \<and> d_string_refs st = R \<and>
        depth_list ts \<le> m \<and> d_heap st = H0 @ JArray acc # Cs \<longrightarrow>
        (\<exists>st'. unserializeElems m (length H0) (length acc) (length ts) st = Inr st' \<and>
               remaining st' = rest \<and> d_string_keys st' = K \<and> d_string_refs st' = R \<and>
               d_heap st' = H0 @ JArray (acc @ roots (length (d_heap st)) ts) # Cs @
                              cells_list (length (d_heap st)) ts))"

definition decodes_props ::
  "string list \<Rightarrow> string list \<Rightarrow> byte list \<Rightarrow> (string \<times> tval) list \<Rightarrow> bool" where
  "decodes_props K R bs kvs =
     (\<forall>st rest m H0 acc Cs.
        remaining st = bs @ rest \<and> d_string_keys st = K \<and> d_string_refs st = R \<and>
        depth_props kvs \<le> m \<and> d_heap st = H0 @ JObject acc # Cs \<and>
        fst ` set acc \<inter> fst ` set kvs = {} \<longrightarrow>
        (\<exists>st'. unserializeProps m (length H0) (length kvs) st = Inr st' \<and>
               remaining st' = rest \<and> d_string_keys st' = K \<and> d_string_refs st' = R \<and>
               d_heap st' = H0 @ JObject (acc @ rprops (length (d_heap st)) kvs) # Cs @
                              cells_props (length (d_heap st)) kvs))"

text \<open>The round trip of a value, of the elements of an array and of the properties of an
  object: the encoder succeeds and extends its state, and what it wrote is read back as
  the canonical form of the value by a decoder whose tables begin with the encoder's.\<close>

definition roundtrips :: "tval \<Rightarrow> bool" where
  "roundtrips s =
     (\<forall>n h a e.
        enc_pre h a (cells a s) (tsize s) e \<and> depth s \<le> n \<longrightarrow>
        (\<exists>e' bs. serializeComponent n h (root a s) e = Inr e' \<and> ds e' = ds e @ bs \<and>
           depth s \<le> length bs \<and>
           extends e e' (tsize s) (set (strings_of s)) a (csize s) \<and>
           (proper s \<longrightarrow>
              (\<forall>K R. starts K (map fst (string_keys e')) \<and> starts R (map fst (string_refs e')) \<longrightarrow>
                 decodes K R bs (canon s)))))"

definition roundtrips_list :: "tval list \<Rightarrow> bool" where
  "roundtrips_list ts =
     (\<forall>n h a e.
        enc_pre h a (cells_list a ts) (tsize_list ts) e \<and> depth_list ts \<le> n \<longrightarrow>
        (\<exists>e' bs. serializeElems n h (roots a ts) e = Inr e' \<and> ds e' = ds e @ bs \<and>
           depth_list ts \<le> Suc (length bs) \<and>
           extends e e' (tsize_list ts) (set (strings_of_list ts)) a (csize_list ts) \<and>
           (proper_list ts \<longrightarrow>
              (\<forall>K R. starts K (map fst (string_keys e')) \<and> starts R (map fst (string_refs e')) \<longrightarrow>
                 decodes_elems K R bs (canon_list ts)))))"

definition roundtrips_props :: "(string \<times> tval) list \<Rightarrow> bool" where
  "roundtrips_props kvs =
     (\<forall>n h a e.
        enc_pre h a (cells_props a kvs) (tsize_props kvs) e \<and> depth_props kvs \<le> n \<longrightarrow>
        (\<exists>e' bs. serializeProps n h (rprops a kvs) e = Inr e' \<and> ds e' = ds e @ bs \<and>
           depth_props kvs \<le> Suc (length bs) \<and>
           extends e e' (tsize_props kvs) (set (strings_of_props kvs)) a (csize_props kvs) \<and>
           (proper_props kvs \<and> distinct (map fst kvs) \<longrightarrow>
              (\<forall>K R. starts K (map fst (string_keys e')) \<and> starts R (map fst (string_refs e')) \<longrightarrow>
                 decodes_props K R bs (canon_props kvs)))))"

section \<open>The count codec\<close>

text \<open>Bit-level facts about the bytes the writer emits and the reader takes apart.\<close>

lemma and_7F: "(w :: 'a::len word) AND 0x7F = take_bit 7 w"
  by (simp add: take_bit_eq_mask mask_eq_exp_minus_1)

lemma bit_128: "bit (128 :: int) n \<longleftrightarrow> n = 7"
proof -
  have e: "(128 :: int) = push_bit 7 1" by (simp add: push_bit_eq_mult)
  have "bit (push_bit 7 (1 :: int)) n \<longleftrightarrow> n = 7"
    unfolding bit_push_bit_iff by (auto simp: bit_1_iff)
  then show ?thesis unfolding e .
qed

lemma and_80_byte: "(b AND 0x80 \<noteq> 0) = bit (b :: byte) 7"
proof -
  have "b AND 0x80 = push_bit 7 (of_bool (bit b 7))"
  proof (rule bit_word_eqI)
    fix n assume "n < LENGTH(8)"
    then show "bit (b AND 0x80) n = bit (push_bit 7 (of_bool (bit b 7)) :: byte) n"
      by (cases "n = 7") (auto simp: bit_simps bit_128)
  qed
  then show ?thesis by (cases "bit b 7") simp_all
qed

declare serializeCount_loop.simps [simp del]

lemma cont_byte: "bit (ucast (take_bit 7 (w :: 32 word) OR 0x80) :: byte) 7"
  by (simp add: bit_simps bit_128)

lemma low7_cont_byte: "take_bit 7 (ucast (take_bit 7 (w :: 32 word) OR 0x80) :: byte) = ucast (take_bit 7 w)"
  by (rule bit_word_eqI) (auto simp: bit_simps bit_128)

lemma recombine: "push_bit (7 * c) (ucast (ucast (take_bit 7 (w :: 32 word)) :: byte)) OR push_bit (7 * (c + 1)) (drop_bit 7 w) = push_bit (7 * c) w"
proof (rule bit_word_eqI)
  fix n assume n: "n < LENGTH(32)"
  show "bit (push_bit (7 * c) (ucast (ucast (take_bit 7 w) :: byte)) OR push_bit (7 * (c + 1)) (drop_bit 7 w)) n
      = bit (push_bit (7 * c) w) n"
  proof (cases "n < 7 * c + 7")
    case True
    with n show ?thesis by (auto simp: bit_simps)
  next
    case False
    then have "7 + (n - (7 + 7 * c)) = n - 7 * c" by simp
    with False n show ?thesis by (auto simp: bit_simps)
  qed
qed


lemma unserializeCount_loop_serializeCount_loop:
  "c \<le> 4 \<Longrightarrow> unat w < 2 ^ (32 - 7 * c) \<Longrightarrow>
   unserializeCount_loop (serializeCount_loop w @ rest) c v =
     Some (v OR push_bit (7 * c) w, c + length (serializeCount_loop w))"
proof (induction w arbitrary: c v rule: serializeCount_loop.induct)
  case (1 w)
  show ?case
  proof (cases "0x80 \<le> w")
    case True
    then have w128: "128 \<le> unat w" by (simp add: word_le_nat_alt)
    have c3: "c \<le> 3"
    proof (rule ccontr)
      assume "\<not> c \<le> 3"
      with "1.prems" have "c = 4" by simp
      with "1.prems" w128 show False by simp
    qed
    have d: "unat (drop_bit 7 w) = unat w div 2 ^ 7"
      unfolding unat_drop_bit_eq by (simp add: drop_bit_eq_div)
    have "32 - 7 * c = 7 + (32 - 7 * (c + 1))" using c3 by simp
    then have "(2::nat) ^ (32 - 7 * c) = 2 ^ 7 * 2 ^ (32 - 7 * (c + 1))"
      by (simp only: power_add)
    then have "unat w < 2 ^ 7 * 2 ^ (32 - 7 * (c + 1))"
      using "1.prems" by simp
    then have b: "unat (drop_bit 7 w) < 2 ^ (32 - 7 * (c + 1))"
      unfolding d by (simp add: less_mult_imp_div_less mult.commute)
    have m: "(7 * c) mod 32 = 7 * c" using c3 by simp
    note IH = "1.IH"[OF True, of "c + 1" "v OR push_bit (7 * c) (ucast (ucast (take_bit 7 w) :: byte))"]
    have "unserializeCount_loop (serializeCount_loop w @ rest) c v
        = unserializeCount_loop (serializeCount_loop (drop_bit 7 w) @ rest) (c + 1)
            (v OR push_bit (7 * c) (ucast (ucast (take_bit 7 w) :: byte)))"
      using True by (subst serializeCount_loop.simps)
        (simp add: and_7F and_80_byte cont_byte low7_cont_byte m)
    also have "\<dots> = Some (v OR push_bit (7 * c) (ucast (ucast (take_bit 7 w) :: byte))
                       OR push_bit (7 * (c + 1)) (drop_bit 7 w),
                     c + 1 + length (serializeCount_loop (drop_bit 7 w)))"
      using IH c3 b by (simp add: or.assoc)
    also have "\<dots> = Some (v OR push_bit (7 * c) w, c + length (serializeCount_loop w))"
      using True recombine[of c w]
      by (subst (2) serializeCount_loop.simps) (simp add: or.assoc)
    finally show ?thesis .
  next
    case False
    then have w: "unat w < 128" by (simp add: word_le_nat_alt)
    have m: "(7 * c) mod 32 = 7 * c" using "1.prems" by simp
    have "unat (take_bit 7 w) = take_bit 7 (unat w)"
      by (rule unsigned_take_bit_eq)
    also have "\<dots> = unat w"
      using w by (simp add: take_bit_eq_mod)
    finally have "(of_nat (unat (take_bit 7 w)) :: 32 word) = of_nat (unat w)" by simp
    then have tw: "take_bit 7 w = w" by simp
    have nb: "\<not> bit (ucast w :: byte) 7"
      by (subst tw[symmetric]) (simp add: bit_simps)
    have "ucast (take_bit 7 (ucast (take_bit 7 w) :: byte)) = take_bit 7 w"
      by (rule bit_word_eqI) (auto simp: bit_simps)
    then have t: "ucast (take_bit 7 (ucast w :: byte)) = w"
      by (simp only: tw)
    show ?thesis
      using False by (subst (1 2) serializeCount_loop.simps)
        (simp add: and_7F and_80_byte nb t m)
  qed
qed


lemma unserializeCount_bytes_serializeCount_loop:
  "unserializeCount_bytes (serializeCount_loop w @ rest) = Some (sint w, length (serializeCount_loop w))"
  using unserializeCount_loop_serializeCount_loop[of 0 w rest 0] unsigned_less[of w, where ?'a = nat]
  by (simp add: unserializeCount_bytes_def)

lemma count_roundtrip:
  assumes "0 \<le> v" "v < 2 ^ 31"
  shows "\<exists>bs. serializeCount_bytes v = Inr bs \<and> bs \<noteq> [] \<and>
           (\<forall>rest. unserializeCount_bytes (bs @ rest) = Some (v, length bs))"
proof -
  have "sint (word_of_int v :: 32 word) = v"
    using assms by (simp add: sint_uint signed_take_bit_int_eq_self_iff uint_word_of_int)
  moreover have "serializeCount_loop (word_of_int v) \<noteq> []"
    by (subst serializeCount_loop.simps) simp
  ultimately show ?thesis
    using assms by (simp add: serializeCount_bytes_def unserializeCount_bytes_serializeCount_loop)
qed








lemma remaining_new_Decoder [simp]: "remaining (new_Decoder b) = b"
  by (simp add: remaining_def new_Decoder_def)

lemmas count_eval = serializeCount_bytes_def unserializeCount_bytes_def serializeCount_loop.simps
  word_le_nat_alt

text \<open>
  C5.  For every unsigned 32-bit integer the writer followed by the reader should return
  the integer.  The writer accepts the full range, but the reader accumulates the count
  with \<^verbatim>\<open>|=\<close>, a signed 32-bit operation: the count \<open>2147483648\<close> is written as five bytes
  and read back as \<open>-2147483648\<close>.  (Below \<open>2 ^ 31\<close> the round trip holds, lemma
  \<open>count_roundtrip\<close>.)
\<close>

theorem count_2147483648_read_back_negative:
  "serializeCount_bytes 2147483648 = Inr [0x80, 0x80, 0x80, 0x80, 0x08] \<and>
   unserializeCount_bytes [0x80, 0x80, 0x80, 0x80, 0x08] = Some (- 2147483648, 5)"
  by (simp add: count_eval)




section \<open>Numbers\<close>

text \<open>The fields of a bit pattern assembled from sign, exponent and fraction.\<close>

lemma dbl_fields:
  assumes r: "r < 2 ^ 52" and e: "e < 2048" and s: "s \<le> 1"
    and x: "x = (word_of_nat (s * 2 ^ 63 + e * 2 ^ 52 + r) :: number)"
  shows "unat x = s * 2 ^ 63 + e * 2 ^ 52 + r"
    and "num_sign x = (s = 1)"
    and "num_exp x = e"
    and "num_frac x = r"
    and "num_mag x = e * 2 ^ 52 + r"
proof -
  have m: "e * 2 ^ 52 + r < 2 ^ 63"
  proof -
    have "e * 2 ^ 52 \<le> 2047 * 2 ^ 52" using e by simp
    with r show ?thesis by simp
  qed
  have "s * 2 ^ 63 + e * 2 ^ 52 + r < 2 ^ 64"
  proof -
    have "s * 2 ^ 63 \<le> 2 ^ 63" using s by simp
    with m show ?thesis by simp
  qed
  then show u: "unat x = s * 2 ^ 63 + e * 2 ^ 52 + r"
    unfolding x by (subst unat_of_nat) simp
  show "num_sign x = (s = 1)"
  proof (cases "s = 1")
    case True
    then show ?thesis unfolding num_sign_def u by simp
  next
    case False
    with s have "s = 0" by simp
    with m show ?thesis unfolding num_sign_def u by simp
  qed
  have d: "(s * 2 ^ 63 + e * 2 ^ 52 + r) div 2 ^ 52 = s * 2 ^ 11 + e"
  proof -
    have "s * 2 ^ 63 + e * 2 ^ 52 + r = r + (s * 2 ^ 11 + e) * 2 ^ 52" by simp
    then show ?thesis using r by (simp only: div_mult_self3) simp
  qed
  show "num_exp x = e"
    unfolding num_exp_def u d using e s by (cases "s = 1") auto
  show "num_frac x = r"
  proof -
    have "s * 2 ^ 63 + e * 2 ^ 52 + r = r + (s * 2 ^ 11 + e) * 2 ^ 52" by simp
    then have "(s * 2 ^ 63 + e * 2 ^ 52 + r) mod 2 ^ 52 = r mod 2 ^ 52"
      by (simp only: mod_mult_self1)
    then show ?thesis unfolding num_frac_def u using r by simp
  qed
  show "num_mag x = e * 2 ^ 52 + r"
  proof -
    have "s * 2 ^ 63 + e * 2 ^ 52 + r = (e * 2 ^ 52 + r) + s * 2 ^ 63" by simp
    then have "(s * 2 ^ 63 + e * 2 ^ 52 + r) mod 2 ^ 63 = (e * 2 ^ 52 + r) mod 2 ^ 63"
      by (simp only: mod_mult_self1)
    then show ?thesis unfolding num_mag_def u using m by simp
  qed
qed



lemma int_mag_form:
  assumes a0: "0 < a" and a53: "a < 2 ^ 53"
  shows "\<exists>p r. p \<le> 52 \<and> r < 2 ^ 52 \<and> a * 2 ^ (52 - p) = 2 ^ 52 + r \<and>
    2 ^ p \<le> a \<and> a < 2 ^ (p + 1) \<and> int_mag a = (1023 + p) * 2 ^ 52 + r"
proof -
  define p where "p = floorlog 2 a - 1"
  have "floorlog 2 a \<noteq> 0" using a0 by (simp add: floorlog_eq_zero_iff)
  then have fl: "0 < floorlog 2 a" by simp
  from floorlog_bounds[of a 2] a0
  have lo: "2 ^ p \<le> a" and hi: "a < 2 ^ (p + 1)" using fl by (auto simp: p_def)
  have p52: "p \<le> 52"
  proof (rule ccontr)
    assume "\<not> p \<le> 52"
    then have "53 \<le> p" by simp
    then have "(2::nat) ^ 53 \<le> 2 ^ p" by (rule power_increasing) simp
    with lo a53 show False by simp
  qed
  have e52: "(2::nat) ^ p * 2 ^ (52 - p) = 2 ^ 52"
    using p52 by (simp flip: power_add)
  have e53: "(2::nat) ^ (p + 1) * 2 ^ (52 - p) = 2 ^ 53"
    using p52 by (simp flip: power_add)
  have "2 ^ p * 2 ^ (52 - p) \<le> a * 2 ^ (52 - p)"
    by (rule mult_le_mono1[OF lo])
  then have l: "2 ^ 52 \<le> a * 2 ^ (52 - p)"
    unfolding e52 .
  have "a * 2 ^ (52 - p) < 2 ^ (p + 1) * 2 ^ (52 - p)"
    by (rule mult_strict_right_mono[OF hi]) simp
  also have "\<dots> = 2 ^ 53" by (rule e53)
  finally have h: "a * 2 ^ (52 - p) < 2 ^ 53" .
  define r where "r = a * 2 ^ (52 - p) - 2 ^ 52"
  have r: "r < 2 ^ 52" and ar: "a * 2 ^ (52 - p) = 2 ^ 52 + r"
    using l h by (auto simp: r_def)
  have "int_mag a = (1022 + p) * 2 ^ 52 + a * 2 ^ (52 - p)"
    using a0 by (simp only: int_mag_def Let_def p_def) simp
  also have "\<dots> = (1023 + p) * 2 ^ 52 + r"
    unfolding ar by simp
  finally have "int_mag a = (1023 + p) * 2 ^ 52 + r" .
  with p52 r ar lo hi show ?thesis
    by blast
qed

lemma int_mag_0 [simp]: "int_mag 0 = 0"
  by (simp add: int_mag_def)

lemma int_mag_less: "a < 2 ^ 53 \<Longrightarrow> int_mag a < 2 ^ 63"
proof (cases "a = 0")
  case True
  then show ?thesis by simp
next
  case False
  assume "a < 2 ^ 53"
  with False obtain p r where "p \<le> 52" "r < 2 ^ 52" "int_mag a = (1023 + p) * 2 ^ 52 + r"
    using int_mag_form[of a] by blast
  moreover from \<open>p \<le> 52\<close> have "(1023 + p) * 2 ^ 52 \<le> 1075 * (2 ^ 52 :: nat)" by simp
  ultimately show ?thesis by simp
qed

lemma int_mag_pos: "0 < a \<Longrightarrow> a < 2 ^ 53 \<Longrightarrow> 0 < int_mag a"
proof -
  assume "0 < a" "a < 2 ^ 53"
  then obtain p r where "int_mag a = (1023 + p) * 2 ^ 52 + r"
    using int_mag_form[of a] by blast
  then show ?thesis by simp
qed

lemma int_mag_mono:
  assumes "0 < a" "a < b" "b < 2 ^ 53"
  shows "int_mag a < int_mag b"
proof -
  have a53: "a < 2 ^ 53" and b0: "0 < b" using assms by simp_all
  obtain p r where p: "p \<le> 52" and r: "r < 2 ^ 52"
    and ar: "a * 2 ^ (52 - p) = 2 ^ 52 + r" and lo: "2 ^ p \<le> a"
    and ma: "int_mag a = (1023 + p) * 2 ^ 52 + r"
    using int_mag_form[OF assms(1) a53] by blast
  obtain q s where q: "q \<le> 52" and s: "s < 2 ^ 52"
    and bs: "b * 2 ^ (52 - q) = 2 ^ 52 + s" and hi: "b < 2 ^ (q + 1)"
    and mb: "int_mag b = (1023 + q) * 2 ^ 52 + s"
    using int_mag_form[OF b0 assms(3)] by blast
  have "(2::nat) ^ p < 2 ^ (q + 1)" using lo hi assms(2) by simp
  then have "p < q + 1" by (simp only: power_strict_increasing_iff) 
  then have pq: "p \<le> q" by simp
  show ?thesis
  proof (cases "p = q")
    case True
    have "a * 2 ^ (52 - p) < b * 2 ^ (52 - p)"
      by (rule mult_strict_right_mono[OF assms(2)]) simp
    then have "r < s" using ar bs True by simp
    then show ?thesis using ma mb True by simp
  next
    case False
    with pq have "p + 1 \<le> q" by simp
    then have "(1023 + p + 1) * 2 ^ 52 \<le> (1023 + q) * (2 ^ 52 :: nat)" by simp
    moreover have "int_mag a < (1023 + p + 1) * 2 ^ 52" using ma r by simp
    ultimately show ?thesis using mb by simp
  qed
qed

lemma int_num_fields:
  assumes k: "\<bar>k\<bar> < 2 ^ 53"
  shows "num_sign (int_num k) = (k < 0)" and "num_mag (int_num k) = int_mag (nat \<bar>k\<bar>)"
    and "\<not> isNaN (int_num k)" and "js_trunc (int_num k) = k"
proof -
  define a where "a = nat \<bar>k\<bar>"
  have a53: "a < 2 ^ 53" using k by (simp add: a_def)
  have "num_sign (int_num k) = (k < 0) \<and> num_mag (int_num k) = int_mag a \<and>
        \<not> isNaN (int_num k) \<and> num_trunc_mag (int_num k) = a"
  proof (cases "a = 0")
    case True
    then have "k = 0" by (simp add: a_def)
    then have "int_num k = 0" by (simp add: int_num_def)
    then show ?thesis using True \<open>k = 0\<close>
      by (simp add: num_sign_def num_mag_def isNaN_def num_exp_def num_frac_def num_trunc_mag_def)
  next
    case False
    with a53 obtain p r where p: "p \<le> 52" and r: "r < 2 ^ 52"
      and ar: "a * 2 ^ (52 - p) = 2 ^ 52 + r" and ma: "int_mag a = (1023 + p) * 2 ^ 52 + r"
      using int_mag_form[of a] by blast
    have x: "int_num k = word_of_nat ((if k < 0 then 1 else 0) * 2 ^ 63 + (1023 + p) * 2 ^ 52 + r)"
      by (simp add: int_num_def ma flip: a_def)
    have e: "1023 + p < 2048" using p by simp
    have s: "(if k < 0 then 1 else 0) \<le> (1::nat)" by simp
    note f = dbl_fields[OF r e s x]
    have sg: "num_sign (int_num k) = (k < 0)" using f(2) by simp
    have nan: "\<not> isNaN (int_num k)" using p by (simp add: isNaN_def f(3))
    have tm: "num_trunc_mag (int_num k) = a"
    proof (cases "p = 52")
      case True
      then show ?thesis using ar by (simp add: num_trunc_mag_def f(3) f(4))
    next
      case False
      with p have "p < 52" by simp
      moreover have "(2 ^ 52 + r) div 2 ^ (52 - p) = a"
        unfolding ar[symmetric] by simp
      ultimately show ?thesis
        by (simp add: num_trunc_mag_def f(3) f(4))
    qed
    show ?thesis using sg nan tm f(5) ma by simp
  qed
  then show "num_sign (int_num k) = (k < 0)" and "num_mag (int_num k) = int_mag (nat \<bar>k\<bar>)"
    and "\<not> isNaN (int_num k)" and "js_trunc (int_num k) = k"
    by (auto simp: a_def js_trunc_def)
qed

lemma num_key_int_num:
  "\<bar>k\<bar> < 2 ^ 53 \<Longrightarrow>
   num_key (int_num k) = (if k < 0 then - int (int_mag (nat \<bar>k\<bar>)) else int (int_mag (nat \<bar>k\<bar>)))"
  by (simp add: num_key_def int_num_fields)

lemma num_key_int_num_mono:
  assumes j: "\<bar>j\<bar> < 2 ^ 53" and k: "\<bar>k\<bar> < 2 ^ 53" and jk: "j < k"
  shows "num_key (int_num j) < num_key (int_num k)"
proof -
  have pos: "0 < int_mag (nat \<bar>i\<bar>)" if "i \<noteq> 0" "\<bar>i\<bar> < 2 ^ 53" for i :: int
    using that by (intro int_mag_pos) auto
  consider "j < 0" "k < 0" | "j < 0" "0 \<le> k" | "0 \<le> j" by linarith
  then show ?thesis
  proof cases
    case 1
    have "int_mag (nat \<bar>k\<bar>) < int_mag (nat \<bar>j\<bar>)"
      using 1 j k jk by (intro int_mag_mono) auto
    then show ?thesis using 1 j k by (simp add: num_key_int_num)
  next
    case 2
    have "0 < int_mag (nat \<bar>j\<bar>)" using 2 j by (intro pos) auto
    then show ?thesis using 2 j k by (simp add: num_key_int_num)
  next
    case 3
    show ?thesis
    proof (cases "j = 0")
      case True
      then have "0 < int_mag (nat \<bar>k\<bar>)" using jk k by (intro pos) auto
      then show ?thesis using True jk k by (simp add: num_key_int_num)
    next
      case False
      have "int_mag (nat \<bar>j\<bar>) < int_mag (nat \<bar>k\<bar>)"
        using 3 False j k jk by (intro int_mag_mono) auto
      then show ?thesis using 3 jk j k by (simp add: num_key_int_num)
    qed
  qed
qed

lemma num_key_int_num_eq_iff:
  "\<bar>j\<bar> < 2 ^ 53 \<Longrightarrow> \<bar>k\<bar> < 2 ^ 53 \<Longrightarrow> num_key (int_num j) = num_key (int_num k) \<longleftrightarrow> j = k"
  using num_key_int_num_mono[of j k] num_key_int_num_mono[of k j]
  by (cases j k rule: linorder_cases) auto

lemma num_key_int_num_le_iff:
  "\<bar>j\<bar> < 2 ^ 53 \<Longrightarrow> \<bar>k\<bar> < 2 ^ 53 \<Longrightarrow> num_key (int_num j) \<le> num_key (int_num k) \<longleftrightarrow> j \<le> k"
  using num_key_int_num_mono[of j k] num_key_int_num_mono[of k j]
  by (cases j k rule: linorder_cases) auto

lemma num_strict_eq_int_num [simp]:
  "\<bar>j\<bar> < 2 ^ 53 \<Longrightarrow> \<bar>k\<bar> < 2 ^ 53 \<Longrightarrow> num_strict_eq (int_num j) (int_num k) \<longleftrightarrow> j = k"
  by (simp add: num_strict_eq_def int_num_fields num_key_int_num_eq_iff)

lemma num_le_int_num [simp]:
  "\<bar>j\<bar> < 2 ^ 53 \<Longrightarrow> \<bar>k\<bar> < 2 ^ 53 \<Longrightarrow> num_le (int_num j) (int_num k) \<longleftrightarrow> j \<le> k"
  by (simp add: num_le_def int_num_fields num_key_int_num_le_iff)

lemma ToInt32_int_num [simp]: "\<bar>k\<bar> < 2 ^ 53 \<Longrightarrow> ToInt32 (int_num k) = word_of_int k"
  by (simp add: ToInt32_def int_num_fields)


lemma number_sign_mag:
  "unat (x :: number) = (if num_sign x then 2 ^ 63 else 0) + num_mag x"
proof -
  have lt: "unat x < 2 ^ 64" using unsigned_less[of x, where ?'a = nat] by simp
  show ?thesis
  proof (cases "2 ^ 63 \<le> unat x")
    case True
    then have "unat x mod 2 ^ 63 = (unat x - 2 ^ 63) mod 2 ^ 63" by (rule le_mod_geq)
    also have "\<dots> = unat x - 2 ^ 63" using lt by simp
    finally show ?thesis using True unfolding num_sign_def num_mag_def by simp
  next
    case False
    then show ?thesis unfolding num_sign_def num_mag_def by simp
  qed
qed

lemma num_strict_eq_cases:
  assumes "num_strict_eq x y"
  shows "x = y \<or> (num_mag x = 0 \<and> num_mag y = 0)"
proof (cases "num_mag x = 0 \<and> num_mag y = 0")
  case True
  then show ?thesis by simp
next
  case False
  from assms have key: "num_key x = num_key y" by (simp add: num_strict_eq_def)
  then have "num_sign x = num_sign y \<and> num_mag x = num_mag y"
    using False by (auto simp: num_key_def split: if_splits)
  then have "unat x = unat y" by (simp add: number_sign_mag)
  then have "x = y" by (rule unsigned_word_eqI)
  then show ?thesis by simp
qed

lemma num_mag_0_cases: "num_mag x = 0 \<Longrightarrow> x = 0 \<or> x = 0x8000000000000000"
proof -
  assume "num_mag x = 0"
  then have "unat x = (if num_sign x then 2 ^ 63 else 0)" by (simp add: number_sign_mag)
  then have "unat x = unat (0 :: number) \<or> unat x = unat (0x8000000000000000 :: number)"
    by (simp split: if_splits)
  then show ?thesis by (auto intro: unsigned_word_eqI)
qed


lemma and_FF: "(w :: 'a::len word) AND 0xFF = take_bit 8 w"
  by (simp add: take_bit_eq_mask mask_eq_exp_minus_1)

lemma and_FFFF: "(w :: 'a::len word) AND 0xFFFF = take_bit 16 w"
  by (simp add: take_bit_eq_mask mask_eq_exp_minus_1)

lemma sint_take_bit_word_of_int:
  assumes "n < 31"
  shows "sint (take_bit n (word_of_int k :: 32 word)) = k mod 2 ^ n"
proof -
  have "uint (take_bit n (word_of_int k :: 32 word)) = take_bit n (uint (word_of_int k :: 32 word))"
    by (rule unsigned_take_bit_eq)
  also have "\<dots> = take_bit n (take_bit 32 k)"
    by (simp only: uint_word_of_int take_bit_eq_mod) simp
  also have "\<dots> = take_bit n k"
    using assms by (simp add: min_def)
  also have "\<dots> = k mod 2 ^ n"
    by (rule take_bit_eq_mod)
  finally have u: "uint (take_bit n (word_of_int k :: 32 word)) = k mod 2 ^ n" .
  have "k mod 2 ^ n < 2 ^ n" by simp
  also have "(2::int) ^ n < 2 ^ 31" by (rule power_strict_increasing[OF assms]) simp
  finally have "k mod 2 ^ n < 2 ^ 31" .
  moreover have "- (2 ^ 31) \<le> k mod 2 ^ n"
  proof -
    have "- (2 ^ 31) \<le> (0::int)" by simp
    also have "(0::int) \<le> k mod 2 ^ n" by simp
    finally show ?thesis .
  qed
  ultimately show ?thesis
    by (simp add: sint_uint u signed_take_bit_int_eq_self_iff)
qed

lemma sint_word_of_int_eq_iff:
  "sint (word_of_int k :: 32 word) = k \<longleftrightarrow> - (2 ^ 31) \<le> k \<and> k < 2 ^ 31"
  by (simp add: sint_sbintrunc' signed_take_bit_int_eq_self_iff)


lemma getNumberTag_int_num:
  assumes k: "\<bar>k\<bar> < 2 ^ 53"
  shows "getNumberTag (int_num k) =
     (if 0 \<le> k \<and> k \<le> 255 then TAG_UINT8
      else if 0 \<le> k \<and> k \<le> 65535 then TAG_UINT16
      else if 0 \<le> k \<and> k < 2 ^ 32 then TAG_UINT32
      else if - 128 \<le> k \<and> k < 0 then TAG_INT8
      else if - 32768 \<le> k \<and> k < 0 then TAG_INT16
      else if - (2 ^ 31) \<le> k \<and> k < 0 then TAG_INT32
      else TAG_NUMBER)"
proof -
  have u: "uint (word_of_int k :: 32 word) = k mod 2 ^ 32"
    by (simp add: uint_word_of_int)
  have ub: "\<bar>k mod 2 ^ 32\<bar> < (2 ^ 53 :: int)"
  proof -
    have "0 \<le> k mod 2 ^ 32" "k mod 2 ^ 32 < 2 ^ 32" by simp_all
    then show ?thesis by simp
  qed
  have c1: "num_strict_eq (int_num k) (int_num (uint (ToInt32 (int_num k)))) \<longleftrightarrow> 0 \<le> k \<and> k < 2 ^ 32"
  proof -
    have "(k = k mod 2 ^ 32) = (0 \<le> k \<and> k < 2 ^ 32)"
      by (metis mod_pos_pos_trivial pos_mod_bound pos_mod_sign zero_less_numeral zero_less_power)
    then show ?thesis using k ub by (simp add: u)
  qed
  have s8: "sint ((word_of_int k :: 32 word) AND 0xFF) = k mod 2 ^ 8"
    unfolding and_FF by (rule sint_take_bit_word_of_int) simp
  have s16: "sint ((word_of_int k :: 32 word) AND 0xFFFF) = k mod 2 ^ 16"
    unfolding and_FFFF by (rule sint_take_bit_word_of_int) simp
  have b8: "\<bar>k mod 2 ^ 8\<bar> < (2 ^ 53 :: int)"
  proof -
    have "0 \<le> k mod 2 ^ 8" "k mod 2 ^ 8 < 2 ^ 8" by simp_all
    then show ?thesis by simp
  qed
  have b16: "\<bar>k mod 2 ^ 16\<bar> < (2 ^ 53 :: int)"
  proof -
    have "0 \<le> k mod 2 ^ 16" "k mod 2 ^ 16 < 2 ^ 16" by simp_all
    then show ?thesis by simp
  qed
  have c8: "num_strict_eq (int_num (sint (ToInt32 (int_num k) AND 0xFF))) (int_num k) \<longleftrightarrow> 0 \<le> k \<and> k \<le> 255"
  proof -
    have "(k mod 2 ^ 8 = k) = (0 \<le> k \<and> k < 2 ^ 8)"
      by (metis mod_pos_pos_trivial pos_mod_bound pos_mod_sign zero_less_numeral zero_less_power)
    then show ?thesis using k b8 by (auto simp: s8)
  qed
  have c16: "num_strict_eq (int_num (sint (ToInt32 (int_num k) AND 0xFFFF))) (int_num k) \<longleftrightarrow> 0 \<le> k \<and> k \<le> 65535"
  proof -
    have "(k mod 2 ^ 16 = k) = (0 \<le> k \<and> k < 2 ^ 16)"
      by (metis mod_pos_pos_trivial pos_mod_bound pos_mod_sign zero_less_numeral zero_less_power)
    then show ?thesis using k b16 by (auto simp: s16)
  qed
  have sb: "\<bar>sint (word_of_int k :: 32 word)\<bar> < 2 ^ 53"
  proof -
    have "- (2 ^ 31) \<le> sint (word_of_int k :: 32 word)" "sint (word_of_int k :: 32 word) < 2 ^ 31"
      using sint_ge[of "word_of_int k :: 32 word"] sint_lt[of "word_of_int k :: 32 word"] by simp_all
    then show ?thesis by simp
  qed
  have c2: "num_strict_eq (int_num k) (int_num (sint (ToInt32 (int_num k)))) \<longleftrightarrow> - (2 ^ 31) \<le> k \<and> k < 2 ^ 31"
    using k sb sint_word_of_int_eq_iff[of k] by (auto simp: eq_commute)
  have l: "num_le (int_num j) (int_num k) \<longleftrightarrow> j \<le> k" "num_le (int_num k) (int_num j) \<longleftrightarrow> k \<le> j"
    if "\<bar>j\<bar> < 2 ^ 53" for j
    using that k by simp_all
  show ?thesis
    unfolding getNumberTag_def c1 c8 c16 c2
    by (simp add: l) 
qed

lemma int_num_0 [simp]: "int_num 0 = 0"
  by (simp add: int_num_def)

lemma getNumberTag_negative_zero: "getNumberTag 0x8000000000000000 = TAG_UINT8"
  by (simp add: getNumberTag_def num_strict_eq_def num_le_def num_key_def num_sign_def
      num_mag_def isNaN_def num_exp_def num_frac_def ToInt32_def js_trunc_def num_trunc_mag_def)

lemma getNumberTag_zero: "getNumberTag 0 = TAG_UINT8"
  using getNumberTag_int_num[of 0] by simp

lemma getNumberTag_strict_eq:
  assumes k: "\<bar>k\<bar> < 2 ^ 53" and e: "num_strict_eq x (int_num k)"
  shows "getNumberTag x = getNumberTag (int_num k)"
proof -
  from num_strict_eq_cases[OF e] show ?thesis
  proof (elim disjE conjE)
    assume "x = int_num k"
    then show ?thesis by simp
  next
    assume m: "num_mag x = 0" "num_mag (int_num k) = 0"
    have "k = 0"
    proof (rule ccontr)
      assume "k \<noteq> 0"
      then have "0 < int_mag (nat \<bar>k\<bar>)" using k by (intro int_mag_pos) auto
      with m(2) k show False by (simp add: int_num_fields)
    qed
    with num_mag_0_cases[OF m(1)] show ?thesis
      by (auto simp: getNumberTag_negative_zero getNumberTag_zero)
  qed
qed

text \<open>
  C4 (as amended).  A number that is (\<^verbatim>\<open>===\<close>) an integer \<open>k\<close> gets the unsigned tags when
  \<open>k\<close> is not negative: UINT8 on \<open>[0, 255]\<close>, UINT16 on \<open>[256, 65535]\<close>, UINT32 up to
  \<open>2 ^ 32 - 1\<close>; a negative \<open>k\<close> gets INT8 on \<open>[-128, -1]\<close>, INT16 on \<open>[-32768, -129]\<close> and
  INT32 down to \<open>- 2 ^ 31\<close>; every other number (an integer outside these ranges, a
  fraction, an infinity, NaN) gets NUMBER.  Negative zero is \<^verbatim>\<open>===\<close> to 0 and gets UINT8.
\<close>

theorem getNumberTag_ladder:
  "(\<bar>k\<bar> < 2 ^ 53 \<and> num_strict_eq x (int_num k) \<longrightarrow>
      getNumberTag x =
        (if 0 \<le> k \<and> k \<le> 255 then TAG_UINT8
         else if 0 \<le> k \<and> k \<le> 65535 then TAG_UINT16
         else if 0 \<le> k \<and> k < 2 ^ 32 then TAG_UINT32
         else if - 128 \<le> k \<and> k < 0 then TAG_INT8
         else if - 32768 \<le> k \<and> k < 0 then TAG_INT16
         else if - (2 ^ 31) \<le> k \<and> k < 0 then TAG_INT32
         else TAG_NUMBER)) \<and>
   ((\<forall>j. \<bar>j\<bar> < 2 ^ 53 \<longrightarrow> \<not> num_strict_eq x (int_num j)) \<longrightarrow> getNumberTag x = TAG_NUMBER)"
proof (intro conjI impI)
  assume "\<bar>k\<bar> < 2 ^ 53 \<and> num_strict_eq x (int_num k)"
  then show "getNumberTag x =
        (if 0 \<le> k \<and> k \<le> 255 then TAG_UINT8
         else if 0 \<le> k \<and> k \<le> 65535 then TAG_UINT16
         else if 0 \<le> k \<and> k < 2 ^ 32 then TAG_UINT32
         else if - 128 \<le> k \<and> k < 0 then TAG_INT8
         else if - 32768 \<le> k \<and> k < 0 then TAG_INT16
         else if - (2 ^ 31) \<le> k \<and> k < 0 then TAG_INT32
         else TAG_NUMBER)"
    using getNumberTag_strict_eq[of k x] getNumberTag_int_num[of k] by simp
next
  assume n: "\<forall>j. \<bar>j\<bar> < 2 ^ 53 \<longrightarrow> \<not> num_strict_eq x (int_num j)"
  have "\<bar>uint (ToInt32 x)\<bar> < 2 ^ 53"
  proof -
    have "uint (ToInt32 x) < 2 ^ 32" using uint_lt2p[of "ToInt32 x"] by simp
    moreover have "0 \<le> uint (ToInt32 x)" by simp
    ultimately show ?thesis by simp
  qed
  moreover have "\<bar>sint (ToInt32 x)\<bar> < 2 ^ 53"
  proof -
    have "- (2 ^ 31) \<le> sint (ToInt32 x)" "sint (ToInt32 x) < 2 ^ 31"
      using sint_ge[of "ToInt32 x"] sint_lt[of "ToInt32 x"] by simp_all
    then show ?thesis by simp
  qed
  ultimately show "getNumberTag x = TAG_NUMBER"
    using n by (simp add: getNumberTag_def)
qed

theorem getNumberTag_ladder_witness:
  "getNumberTag (int_num 5) = TAG_UINT8 \<and> getNumberTag (int_num 300) = TAG_UINT16 \<and>
   getNumberTag (int_num 70000) = TAG_UINT32 \<and> getNumberTag (int_num (- 1)) = TAG_INT8 \<and>
   getNumberTag (int_num (- 129)) = TAG_INT16 \<and> getNumberTag (int_num (- 40000)) = TAG_INT32 \<and>
   getNumberTag (int_num 4294967296) = TAG_NUMBER \<and>
   getNumberTag 0x7FF8000000000000 = TAG_NUMBER"
proof -
  have nan: "isNaN 0x7FF8000000000000"
    by (simp add: isNaN_def num_exp_def num_frac_def)
  then have "\<forall>j. \<bar>j\<bar> < 2 ^ 53 \<longrightarrow> \<not> num_strict_eq 0x7FF8000000000000 (int_num j)"
    by (simp add: num_strict_eq_def)
  then show ?thesis
    using getNumberTag_ladder[of 5 "int_num 5"] getNumberTag_ladder[of 300 "int_num 300"]
      getNumberTag_ladder[of 70000 "int_num 70000"] getNumberTag_ladder[of "- 1" "int_num (- 1)"]
      getNumberTag_ladder[of "- 129" "int_num (- 129)"]
      getNumberTag_ladder[of "- 40000" "int_num (- 40000)"]
      getNumberTag_ladder[of 4294967296 "int_num 4294967296"]
      getNumberTag_ladder[of 0 "0x7FF8000000000000"]
    by simp
qed

text \<open>Rules that evaluate the codec on concrete inputs.\<close>

lemma readTable_numeral:
  "readTable (numeral k) st =
     (case readCString st of
        Inl err \<Rightarrow> Inl err
      | Inr (s, st') \<Rightarrow>
          (case readTable (pred_numeral k) st' of
             Inl err \<Rightarrow> Inl err
           | Inr (ss, st'') \<Rightarrow> Inr (s # ss, st'')))"
  by (simp add: numeral_eq_Suc)

lemma unserializeProps_numeral:
  "unserializeProps n obj (numeral k) st =
     (case unserializeCount st of
        Inl err \<Rightarrow> Inl err
      | Inr (index, st1) \<Rightarrow>
          if index \<ge> int (length (d_string_keys st1)) then Inl OutOfBoundProperty
          else
            (let key = (if index < 0 then ''undefined'' else d_string_keys st1 ! nat index)
             in case unserializeComponent n st1 of
                  Inl err \<Rightarrow> Inl err
                | Inr (v, st2) \<Rightarrow>
                    unserializeProps n obj (pred_numeral k) (heap_update obj (obj_set key v) st2)))"
  by (simp add: numeral_eq_Suc)

lemma unserializeElems_numeral:
  "unserializeElems n arr i (numeral k) st =
     (case unserializeComponent n st of
        Inl err \<Rightarrow> Inl err
      | Inr (elem, st1) \<Rightarrow>
          unserializeElems n arr (i + 1) (pred_numeral k) (heap_update arr (arr_set i elem) st1))"
  by (simp add: numeral_eq_Suc)

lemmas enc_eval = encode_def new_Encoder_def emit_def serializeCount_def serializeCount_bytes_def
  serializeCount_loop.simps serializeNumber_def serializeString_def serializeDate_def
  serializeTOS_def writeCString_def be16_def be32_def be64_def word_le_nat_alt
  getNumberTag_int_num ToInt32_int_num

declare unserializeComponentPart.simps [simp del]

lemmas dec_eval = unserializeComponentPart.simps decode_def instanceof_ArrayBuffer_def
  buffer_prop_def stream_bytes_def Decoder_decode_def new_Decoder_def unserializeTOS_def remaining_def
  advance_def readUint8_def readBytes_def readCString_def readUint8Array_def unserializeCount_def
  unserializeCount_bytes_def unserializeString_def readNumber_def unserializeDate_def obj_set_def
  arr_set_def heap_update_def allocate_def register_def rd16_def rd32_def rd64_def
  word_less_nat_alt readTable_numeral unserializeProps_numeral unserializeElems_numeral
  Let_def char_of_def bit_Suc_0_iff

section \<open>Cycles\<close>

text \<open>
  C2.  The cyclic value \<^verbatim>\<open>o\<close> of scenario S4 encodes to \<open>s4_bytes\<close>, whose header byte has
  the NOCYCLE bit clear, and decoding yields a root \<^verbatim>\<open>o'\<close> with
  \<^verbatim>\<open>o'.children[0].parent\<close> being \<^verbatim>\<open>o'\<close> itself (the same address, not a copy); the decoded
  graph is the original one.  Both sides register at the position of the tag byte before
  the body is processed: the encoder has registered the three containers at the payload
  positions 0, 6 and 8, where their tag bytes stand, and the decoder has registered its
  three containers at these positions plus its offset.
\<close>

theorem cycle_roundtrip_S4:
  "encode s4_heap (JRef 0) False = Inr s4_bytes \<and>
   (s4_bytes ! 0) AND OPTION_NOCYCLE = 0 \<and>
   (case decode (Buffer s4_bytes) of
      Inl err \<Rightarrow> False
    | Inr (o', h') \<Rightarrow>
        js_prop h' (js_elem h' (js_prop h' o' ''children'') 0) ''parent'' = o' \<and>
        o' = JRef 0 \<and> h' = s4_heap) \<and>
   (case serializeComponent (Suc (length s4_heap)) s4_heap (JRef 0) new_Encoder of
      Inl err \<Rightarrow> False
    | Inr e \<Rightarrow>
        object_refs e 0 = Some 0 \<and> object_refs e 1 = Some 6 \<and> object_refs e 2 = Some 8 \<and>
        ds e ! 0 = TAG_OBJECT \<and> ds e ! 6 = TAG_ARRAY \<and> ds e ! 8 = TAG_OBJECT) \<and>
   (case Decoder_decode (new_Decoder s4_bytes) of
      Inl err \<Rightarrow> False
    | Inr (v, st) \<Rightarrow>
        d_object_refs st (int (d_offset st) + 0) = Some 0 \<and>
        d_object_refs st (int (d_offset st) + 6) = Some 1 \<and>
        d_object_refs st (int (d_offset st) + 8) = Some 2)"
proof (intro conjI)
  show "encode s4_heap (JRef 0) False = Inr s4_bytes"
    by (simp add: enc_eval s4_heap_def s4_bytes_def)
  show "(s4_bytes ! 0) AND OPTION_NOCYCLE = 0"
    by (simp add: s4_bytes_def)
  have d: "decode (Buffer s4_bytes) = Inr (JRef 0, s4_heap)"
    by (simp add: dec_eval s4_heap_def s4_bytes_def)
  show "case decode (Buffer s4_bytes) of
      Inl err \<Rightarrow> False
    | Inr (o', h') \<Rightarrow>
        js_prop h' (js_elem h' (js_prop h' o' ''children'') 0) ''parent'' = o' \<and>
        o' = JRef 0 \<and> h' = s4_heap"
    unfolding d by (simp add: js_prop_def js_elem_def s4_heap_def)
  show "case serializeComponent (Suc (length s4_heap)) s4_heap (JRef 0) new_Encoder of
      Inl err \<Rightarrow> False
    | Inr e \<Rightarrow>
        object_refs e 0 = Some 0 \<and> object_refs e 1 = Some 6 \<and> object_refs e 2 = Some 8 \<and>
        ds e ! 0 = TAG_OBJECT \<and> ds e ! 6 = TAG_ARRAY \<and> ds e ! 8 = TAG_OBJECT"
    by (simp add: enc_eval s4_heap_def)
  show "case Decoder_decode (new_Decoder s4_bytes) of
      Inl err \<Rightarrow> False
    | Inr (v, st) \<Rightarrow>
        d_object_refs st (int (d_offset st) + 0) = Some 0 \<and>
        d_object_refs st (int (d_offset st) + 6) = Some 1 \<and>
        d_object_refs st (int (d_offset st) + 8) = Some 2"
    by (simp add: dec_eval s4_bytes_def)
qed

text \<open>The claim as stated fails: the number 5 lies in \<open>[-128, 127]\<close> and is emitted with the
  unsigned tag UINT8 (\<open>0x12\<close>), not INT8.\<close>

theorem number_5_emitted_as_UINT8:
  "getNumberTag (int_num 5) = TAG_UINT8 \<and> TAG_UINT8 \<noteq> TAG_INT8 \<and>
   encode [] (JNumber (int_num 5)) False = Inr [0x41, 0x00, 0x00, 0x12, 0x05]"
  by (simp add: enc_eval)
section \<open>Decoding with the \<^verbatim>\<open>NOCYCLE\<close> option\<close>















subsection \<open>The decoded heap is a forest\<close>

text \<open>Assigning a property or an element adds at most the references of the assigned
  value to a container.\<close>

lemma refs_val_cases: "refs_val v = [] \<or> (\<exists>a. v = JRef a)"
  by (cases v) auto






lemma concat_refs_replicate [simp]: "concat (map refs_val (replicate n JUndefined)) = []"
  by (induction n) auto


text \<open>Allocation and assignment keep a heap a forest.\<close>

lemma heap_refs_append [simp]: "heap_refs (h @ h') = heap_refs h @ heap_refs h'"
  by (simp add: heap_refs_def)

lemma heap_refs_single [simp]: "heap_refs [c] = refs_cell c"
  by (simp add: heap_refs_def)

lemma heap_refs_Cons [simp]: "heap_refs (c # h) = refs_cell c @ heap_refs h"
  by (simp add: heap_refs_def)

lemma heap_refs_Nil [simp]: "heap_refs [] = []"
  by (simp add: heap_refs_def)

lemma refs_cell_subset_heap_refs: "p < length h \<Longrightarrow> set (refs_cell (h ! p)) \<subseteq> set (heap_refs h)"
proof -
  assume "p < length h"
  then have "h ! p \<in> set h" by simp
  then show ?thesis by (auto simp: heap_refs_def)
qed


























section \<open>The decode entry point\<close>
















section \<open>Round trip of values without shared containers\<close>

text \<open>The big-endian writes are read back.\<close>

lemma rd16_be16 [simp]: "rd16 (be16 w) = w"
  unfolding rd16_def be16_def
  by (rule bit_word_eqI) (auto simp: bit_simps)

lemma rd32_be32 [simp]: "rd32 (be32 w) = w"
proof (rule bit_word_eqI)
  fix n assume "n < LENGTH(32)"
  then consider "n < 8" | "8 \<le> n \<and> n < 16" | "16 \<le> n \<and> n < 24" | "24 \<le> n \<and> n < 32"
    by force
  then show "bit (rd32 (be32 w)) n = bit w n"
    unfolding rd32_def be32_def
    by cases (auto simp: bit_simps)
qed

lemma rd64_be64 [simp]: "rd64 (be64 w) = w"
proof (rule bit_word_eqI)
  fix n assume "n < LENGTH(64)"
  then consider "n < 8" | "8 \<le> n \<and> n < 16" | "16 \<le> n \<and> n < 24" | "24 \<le> n \<and> n < 32"
    | "32 \<le> n \<and> n < 40" | "40 \<le> n \<and> n < 48" | "48 \<le> n \<and> n < 56" | "56 \<le> n \<and> n < 64"
    by force
  then show "bit (rd64 (be64 w)) n = bit w n"
    unfolding rd64_def be64_def
    by cases (auto simp: bit_simps)
qed

text \<open>What a number is written as is read back as the same number, \<open>-0\<close> apart.\<close>

lemma ToInt32_negative_zero: "ToInt32 0x8000000000000000 = 0"
  by (simp add: ToInt32_def js_trunc_def num_trunc_mag_def num_exp_def num_frac_def num_sign_def)

lemma num_mag_negative_zero: "num_mag 0x8000000000000000 = 0"
  by (simp add: num_mag_def)

lemma int_num_not_negative_zero:
  assumes "\<bar>k\<bar> < 2 ^ 53"
  shows "int_num k \<noteq> 0x8000000000000000"
proof
  assume e: "int_num k = 0x8000000000000000"
  with int_num_fields(1)[OF assms] have "k < 0"
    by (simp add: num_sign_def)
  then have "0 < int_mag (nat \<bar>k\<bar>)" using assms by (intro int_mag_pos) auto
  with int_num_fields(2)[OF assms] e show False
    by (simp add: num_mag_negative_zero)
qed

lemma strict_eq_int_num:
  assumes k: "\<bar>k\<bar> < 2 ^ 53" and e: "num_strict_eq x (int_num k)"
  shows "canon_number x = int_num k" and "ToInt32 x = word_of_int k"
proof -
  from num_strict_eq_cases[OF e]
  have "canon_number x = int_num k \<and> ToInt32 x = word_of_int k"
  proof (elim disjE conjE)
    assume "x = int_num k"
    with k int_num_not_negative_zero[OF k] show ?thesis
      by (simp add: canon_number_def)
  next
    assume m: "num_mag x = 0" "num_mag (int_num k) = 0"
    have k0: "k = 0"
    proof (rule ccontr)
      assume "k \<noteq> 0"
      then have "0 < int_mag (nat \<bar>k\<bar>)" using k by (intro int_mag_pos) auto
      with m(2) k show False by (simp add: int_num_fields)
    qed
    from num_mag_0_cases[OF m(1)] show ?thesis
    proof
      assume "x = 0"
      with k0 show ?thesis
        using ToInt32_int_num[of 0] by (simp add: canon_number_def)
    next
      assume "x = 0x8000000000000000"
      with k0 show ?thesis
        by (simp add: canon_number_def ToInt32_negative_zero)
    qed
  qed
  then show "canon_number x = int_num k" and "ToInt32 x = word_of_int k" by simp_all
qed

lemma remaining_advance: "remaining (advance n st) = drop n (remaining st)"
  by (simp add: remaining_def advance_def add.commute)

lemma readBytes_append:
  "remaining st = bs @ rest \<Longrightarrow> length bs = n \<Longrightarrow> readBytes n st = Inr (bs, advance n st)"
  by (auto simp: readBytes_def)

lemma length_be [simp]: "length (be16 a) = 2" "length (be32 b) = 4" "length (be64 c) = 8"
  by (simp_all add: be16_def be32_def be64_def)

lemma ucast_word_of_int_down:
  "LENGTH('b::len) \<le> LENGTH('a::len) \<Longrightarrow> (ucast (word_of_int k :: 'a word) :: 'b word) = word_of_int k"
  by (rule bit_word_eqI) (auto simp: bit_simps)

lemma number_roundtrip:
  "\<exists>bs. serializeNumber x (getNumberTag x) e = emit bs e \<and> bs \<noteq> [] \<and>
     (\<forall>st rest. remaining st = bs @ rest \<longrightarrow>
        readNumber (getNumberTag x) st = Inr (canon_number x, advance (length bs) st))"
proof (cases "getNumberTag x = TAG_NUMBER")
  case True
  have "x \<noteq> 0x8000000000000000"
    using True getNumberTag_negative_zero by auto
  then have c: "canon_number x = x" by (simp add: canon_number_def)
  have "serializeNumber x (getNumberTag x) e = emit (be64 x) e"
    by (simp add: True serializeNumber_def)
  moreover have "readNumber (getNumberTag x) st = Inr (canon_number x, advance (length (be64 x)) st)"
    if "remaining st = be64 x @ rest" for st rest
    using readBytes_append[OF that, of 8] by (simp add: True readNumber_def c)
  moreover have "be64 x \<noteq> []" by (simp add: be64_def)
  ultimately show ?thesis by blast
next
  case False
  have bu: "\<bar>uint (ToInt32 x)\<bar> < 2 ^ 53"
  proof -
    have "uint (ToInt32 x) < 2 ^ 32" using uint_lt2p[of "ToInt32 x"] by simp
    moreover have "0 \<le> uint (ToInt32 x)" by simp
    ultimately show ?thesis by simp
  qed
  have bs: "\<bar>sint (ToInt32 x)\<bar> < 2 ^ 53"
  proof -
    have "- (2 ^ 31) \<le> sint (ToInt32 x)" "sint (ToInt32 x) < 2 ^ 31"
      using sint_ge[of "ToInt32 x"] sint_lt[of "ToInt32 x"] by simp_all
    then show ?thesis by simp
  qed
  from False have "num_strict_eq x (int_num (uint (ToInt32 x))) \<or>
      num_strict_eq x (int_num (sint (ToInt32 x)))"
    by (simp add: getNumberTag_def split: if_splits)
  with bu bs obtain k where k: "\<bar>k\<bar> < 2 ^ 53" and e: "num_strict_eq x (int_num k)"
    by blast
  note c = strict_eq_int_num[OF k e]
  have tag: "getNumberTag x = getNumberTag (int_num k)"
    by (rule getNumberTag_strict_eq[OF k e])
  have rng: "getNumberTag (int_num k) \<noteq> TAG_NUMBER"
    using False tag by simp
  consider (u8) "0 \<le> k" "k \<le> 255" | (u16) "255 < k" "k \<le> 65535" | (u32) "65535 < k" "k < 2 ^ 32"
    | (i8) "- 128 \<le> k" "k < 0" | (i16) "- 32768 \<le> k" "k < - 128" | (i32) "- (2 ^ 31) \<le> k" "k < - 32768"
    using rng getNumberTag_int_num[OF k] by (auto split: if_splits)
  then show ?thesis
  proof cases
    case u8
    then have t: "getNumberTag x = TAG_UINT8" using tag getNumberTag_int_num[OF k] by simp
    have v: "uint (word_of_int k :: byte) = k"
      using u8 by (simp add: uint_word_of_int take_bit_int_eq_self)
    have w: "serializeNumber x (getNumberTag x) e = emit [word_of_int k] e"
      by (simp add: t serializeNumber_def c(2) ucast_word_of_int_down)
    have "readNumber (getNumberTag x) st = Inr (canon_number x, advance (length [word_of_int k :: byte]) st)"
      if "remaining st = [word_of_int k] @ rest" for st rest
      using readBytes_append[OF that, of 1] by (simp add: t readNumber_def c(1) v)
    with w show ?thesis by blast
  next
    case u16
    then have t: "getNumberTag x = TAG_UINT16" using tag getNumberTag_int_num[OF k] by simp
    have v: "uint (word_of_int k :: 16 word) = k"
      using u16 by (simp add: uint_word_of_int take_bit_int_eq_self)
    have w: "serializeNumber x (getNumberTag x) e = emit (be16 (word_of_int k)) e"
      by (simp add: t serializeNumber_def c(2) ucast_word_of_int_down)
    have "readNumber (getNumberTag x) st = Inr (canon_number x, advance (length (be16 (word_of_int k))) st)"
      if "remaining st = be16 (word_of_int k) @ rest" for st rest
      using readBytes_append[OF that, of 2] by (simp add: t readNumber_def c(1) v)
    moreover have "be16 (word_of_int k) \<noteq> []" by (simp add: be16_def)
    ultimately show ?thesis using w by blast
  next
    case u32
    then have t: "getNumberTag x = TAG_UINT32" using tag getNumberTag_int_num[OF k] by simp
    have v: "uint (word_of_int k :: 32 word) = k"
      using u32 by (simp add: uint_word_of_int take_bit_int_eq_self)
    have w: "serializeNumber x (getNumberTag x) e = emit (be32 (word_of_int k)) e"
      by (simp add: t serializeNumber_def c(2))
    have "readNumber (getNumberTag x) st = Inr (canon_number x, advance (length (be32 (word_of_int k))) st)"
      if "remaining st = be32 (word_of_int k) @ rest" for st rest
      using readBytes_append[OF that, of 4] by (simp add: t readNumber_def c(1) v)
    moreover have "be32 (word_of_int k) \<noteq> []" by (simp add: be32_def)
    ultimately show ?thesis using w by blast
  next
    case i8
    then have t: "getNumberTag x = TAG_INT8" using tag getNumberTag_int_num[OF k] by simp
    have v: "sint (word_of_int k :: byte) = k"
      using i8 by (simp add: sint_sbintrunc' signed_take_bit_int_eq_self)
    have w: "serializeNumber x (getNumberTag x) e = emit [word_of_int k] e"
      by (simp add: t serializeNumber_def c(2) ucast_word_of_int_down)
    have "readNumber (getNumberTag x) st = Inr (canon_number x, advance (length [word_of_int k :: byte]) st)"
      if "remaining st = [word_of_int k] @ rest" for st rest
      using readBytes_append[OF that, of 1] by (simp add: t readNumber_def c(1) v)
    with w show ?thesis by blast
  next
    case i16
    then have t: "getNumberTag x = TAG_INT16" using tag getNumberTag_int_num[OF k] by simp
    have v: "sint (word_of_int k :: 16 word) = k"
      using i16 by (simp add: sint_sbintrunc' signed_take_bit_int_eq_self)
    have w: "serializeNumber x (getNumberTag x) e = emit (be16 (word_of_int k)) e"
      by (simp add: t serializeNumber_def c(2) ucast_word_of_int_down)
    have "readNumber (getNumberTag x) st = Inr (canon_number x, advance (length (be16 (word_of_int k))) st)"
      if "remaining st = be16 (word_of_int k) @ rest" for st rest
      using readBytes_append[OF that, of 2] by (simp add: t readNumber_def c(1) v)
    moreover have "be16 (word_of_int k) \<noteq> []" by (simp add: be16_def)
    ultimately show ?thesis using w by blast
  next
    case i32
    then have t: "getNumberTag x = TAG_INT32" using tag getNumberTag_int_num[OF k] by simp
    have v: "sint (word_of_int k :: 32 word) = k"
      using i32 by (simp add: sint_sbintrunc' signed_take_bit_int_eq_self)
    have w: "serializeNumber x (getNumberTag x) e = emit (be32 (word_of_int k)) e"
      by (simp add: t serializeNumber_def c(2))
    have "readNumber (getNumberTag x) st = Inr (canon_number x, advance (length (be32 (word_of_int k))) st)"
      if "remaining st = be32 (word_of_int k) @ rest" for st rest
      using readBytes_append[OF that, of 4] by (simp add: t readNumber_def c(1) v)
    moreover have "be32 (word_of_int k) \<noteq> []" by (simp add: be32_def)
    ultimately show ?thesis using w by blast
  qed
qed

subsection \<open>Heaps, tables and counts\<close>

lemma holds_at_Nil [simp]: "holds_at h a []"
  by (simp add: holds_at_def)

lemma holds_at_Cons:
  "holds_at h a (c # cs) \<longleftrightarrow> a < length h \<and> h ! a = c \<and> holds_at h (Suc a) cs"
proof (cases "a < length h")
  case True
  then have "drop a h = h ! a # drop (Suc a) h" by (simp add: Cons_nth_drop_Suc)
  then show ?thesis using True by (simp add: holds_at_def)
next
  case False
  then show ?thesis by (simp add: holds_at_def)
qed

lemma holds_at_append:
  "holds_at h a (xs @ ys) \<longleftrightarrow> holds_at h a xs \<and> holds_at h (a + length xs) ys"
proof (induction xs arbitrary: a)
  case Nil
  then show ?case by simp
next
  case (Cons x xs)
  then show ?case by (simp add: holds_at_Cons)
qed

lemma length_cells [simp]:
  "length (cells a t) = csize t"
  "length (cells_list a ts) = csize_list ts"
  "length (cells_props a kvs) = csize_props kvs"
  by (induction a t and a ts and a kvs rule: cells_cells_list_cells_props.induct) simp_all

lemma length_roots [simp]: "length (roots a ts) = length ts"
  by (induction ts arbitrary: a) simp_all

lemma length_rprops [simp]: "length (rprops a kvs) = length kvs"
  by (induction kvs arbitrary: a) auto

lemma map_fst_rprops [simp]: "map fst (rprops a kvs) = map fst kvs"
  by (induction kvs arbitrary: a) auto

lemma starts_appendD:
  assumes "starts K (xs @ ys)"
  shows "starts K xs"
proof -
  have "take (length xs) K = take (length xs) (take (length (xs @ ys)) K)"
    by (simp add: min_def)
  also have "\<dots> = take (length xs) (xs @ ys)"
    using assms by (simp only: starts_def)
  also have "\<dots> = xs" by simp
  finally show ?thesis by (simp add: starts_def)
qed

lemma starts_nth:
  assumes "starts K xs" "i < length xs"
  shows "K ! i = xs ! i"
proof -
  have "xs ! i = take (length xs) K ! i" using assms(1) by (simp add: starts_def)
  also have "\<dots> = K ! i" using assms(2) by simp
  finally show ?thesis by simp
qed

lemma starts_length:
  assumes "starts K xs"
  shows "length xs \<le> length K"
proof -
  have "length xs = length (take (length xs) K)" using assms by (simp add: starts_def)
  then show ?thesis by simp
qed

lemma starts_refl [simp]: "starts K K"
  by (simp add: starts_def)

lemma keys_lookup:
  assumes "tables_ok e" "map_of (string_keys e) k = Some i"
  shows "i < length (string_keys e)" "map fst (string_keys e) ! i = k"
proof -
  from assms(2) have "(k, i) \<in> set (string_keys e)" by (rule map_of_SomeD)
  then obtain j where j: "j < length (string_keys e)" "string_keys e ! j = (k, i)"
    by (auto simp: in_set_conv_nth)
  from assms(1) have "map snd (string_keys e) ! j = [0..<length (string_keys e)] ! j"
    by (simp add: tables_ok_def)
  with j have "i = j" by simp
  with j show "i < length (string_keys e)" "map fst (string_keys e) ! i = k" by simp_all
qed

lemma refs_lookup:
  assumes "tables_ok e" "map_of (string_refs e) s = Some i"
  shows "1 \<le> i" "i \<le> length (string_refs e)" "map fst (string_refs e) ! (i - 1) = s"
proof -
  from assms(2) have "(s, i) \<in> set (string_refs e)" by (rule map_of_SomeD)
  then obtain j where j: "j < length (string_refs e)" "string_refs e ! j = (s, i)"
    by (auto simp: in_set_conv_nth)
  from assms(1) have "map snd (string_refs e) ! j = map Suc [0..<length (string_refs e)] ! j"
    by (simp add: tables_ok_def)
  with j have "i = Suc j" by simp
  with j show "1 \<le> i" "i \<le> length (string_refs e)" "map fst (string_refs e) ! (i - 1) = s"
    by simp_all
qed

lemma extendsE:
  assumes "extends e e' k S a c"
  obtains ks rs where "tables_ok e'" "hasCycle e' = hasCycle e"
    "string_keys e' = string_keys e @ ks" "length ks \<le> k" "fst ` set ks \<subseteq> S"
    "string_refs e' = string_refs e @ rs" "length rs \<le> k" "fst ` set rs \<subseteq> S"
    "\<And>i. (object_refs e' i = None) = (object_refs e i = None \<and> (i < a \<or> a + c \<le> i))"
  using assms unfolding extends_def by (elim conjE exE) (rule that, assumption+, simp)

lemma extendsI:
  assumes "tables_ok e'" "hasCycle e' = hasCycle e"
    "string_keys e' = string_keys e @ ks" "length ks \<le> k" "fst ` set ks \<subseteq> S"
    "string_refs e' = string_refs e @ rs" "length rs \<le> k" "fst ` set rs \<subseteq> S"
    "\<And>i. (object_refs e' i = None) = (object_refs e i = None \<and> (i < a \<or> a + c \<le> i))"
  shows "extends e e' k S a c"
  unfolding extends_def
proof (intro conjI)
  show "\<exists>ks. string_keys e' = string_keys e @ ks \<and> length ks \<le> k \<and> fst ` set ks \<subseteq> S"
    using assms(3,4,5) by (intro exI[of _ ks]) simp
  show "\<exists>rs. string_refs e' = string_refs e @ rs \<and> length rs \<le> k \<and> fst ` set rs \<subseteq> S"
    using assms(6,7,8) by (intro exI[of _ rs]) simp
  show "\<forall>i. (object_refs e' i = None) = (object_refs e i = None \<and> (i < a \<or> a + c \<le> i))"
    using assms(9) by simp
qed (use assms in simp_all)

lemma extends_refl: "tables_ok e \<Longrightarrow> extends e e k S a 0"
  by (rule extendsI[where ks = "[]" and rs = "[]"]) auto

lemma extends_trans:
  assumes "extends e e1 k1 S1 a c1" "extends e1 e2 k2 S2 (a + c1) c2"
  shows "extends e e2 (k1 + k2) (S1 \<union> S2) a (c1 + c2)"
proof -
  from assms(1) obtain ks1 rs1 where
    k1: "string_keys e1 = string_keys e @ ks1" "length ks1 \<le> k1" "fst ` set ks1 \<subseteq> S1" and
    r1: "string_refs e1 = string_refs e @ rs1" "length rs1 \<le> k1" "fst ` set rs1 \<subseteq> S1" and
    h1: "hasCycle e1 = hasCycle e" and
    o1: "\<And>i. (object_refs e1 i = None) = (object_refs e i = None \<and> (i < a \<or> a + c1 \<le> i))"
    by (rule extendsE) (rule that, assumption+)
  from assms(2) obtain ks2 rs2 where
    k2: "string_keys e2 = string_keys e1 @ ks2" "length ks2 \<le> k2" "fst ` set ks2 \<subseteq> S2" and
    r2: "string_refs e2 = string_refs e1 @ rs2" "length rs2 \<le> k2" "fst ` set rs2 \<subseteq> S2" and
    h2: "hasCycle e2 = hasCycle e1" and t2: "tables_ok e2" and
    o2: "\<And>i. (object_refs e2 i = None) = (object_refs e1 i = None \<and> (i < a + c1 \<or> a + c1 + c2 \<le> i))"
    by (rule extendsE) (rule that, assumption+)
  show ?thesis
  proof (rule extendsI[where ks = "ks1 @ ks2" and rs = "rs1 @ rs2"])
    show "(object_refs e2 i = None) = (object_refs e i = None \<and> (i < a \<or> a + (c1 + c2) \<le> i))" for i
      unfolding o2 o1 by auto
    show "fst ` set (ks1 @ ks2) \<subseteq> S1 \<union> S2" using k1(3) k2(3) by auto
    show "fst ` set (rs1 @ rs2) \<subseteq> S1 \<union> S2" using r1(3) r2(3) by auto
  qed (use k1 k2 r1 r2 h1 h2 t2 in simp_all)
qed

lemma extends_weaken:
  assumes "extends e e' k S a c" "k \<le> k'" "S \<subseteq> S'"
  shows "extends e e' k' S' a c"
proof -
  from assms(1) obtain ks rs where
    f: "tables_ok e'" "hasCycle e' = hasCycle e"
    "string_keys e' = string_keys e @ ks" "length ks \<le> k" "fst ` set ks \<subseteq> S"
    "string_refs e' = string_refs e @ rs" "length rs \<le> k" "fst ` set rs \<subseteq> S"
    "\<And>i. (object_refs e' i = None) = (object_refs e i = None \<and> (i < a \<or> a + c \<le> i))"
    by (rule extendsE) (rule that, assumption+)
  show ?thesis
  proof (rule extendsI[where ks = ks and rs = rs])
    show "fst ` set ks \<subseteq> S'" using f(5) assms(3) by blast
    show "fst ` set rs \<subseteq> S'" using f(8) assms(3) by blast
  qed (use f assms(2) in simp_all)
qed

lemma extends_starts:
  assumes "extends e e' k S a c"
  shows "starts K (map fst (string_keys e')) \<Longrightarrow> starts K (map fst (string_keys e))"
    and "starts R (map fst (string_refs e')) \<Longrightarrow> starts R (map fst (string_refs e))"
proof -
  from assms obtain ks rs where "string_keys e' = string_keys e @ ks" "string_refs e' = string_refs e @ rs"
    by (rule extendsE) (rule that, assumption+)
  then show "starts K (map fst (string_keys e')) \<Longrightarrow> starts K (map fst (string_keys e))"
    and "starts R (map fst (string_refs e')) \<Longrightarrow> starts R (map fst (string_refs e))"
    using starts_appendD[of K "map fst (string_keys e)" "map fst ks"]
      starts_appendD[of R "map fst (string_refs e)" "map fst rs"] by simp_all
qed

lemma extends_lengths:
  assumes "extends e e' k S a c"
  shows "length (string_keys e') \<le> length (string_keys e) + k"
    and "length (string_refs e') \<le> length (string_refs e) + k"
proof -
  from assms obtain ks rs where "string_keys e' = string_keys e @ ks" "length ks \<le> k"
    "string_refs e' = string_refs e @ rs" "length rs \<le> k"
    by (rule extendsE) (rule that, assumption+)
  then show "length (string_keys e') \<le> length (string_keys e) + k"
    and "length (string_refs e') \<le> length (string_refs e) + k" by simp_all
qed

text \<open>Counts below \<open>2 ^ 31\<close> are written and read back.\<close>

lemma serializeCount_ok:
  assumes "0 \<le> v" "v < 2 ^ 31"
  shows "\<exists>bs. serializeCount v e = Inr (emit bs e) \<and> bs \<noteq> [] \<and>
     (\<forall>st rest. remaining st = bs @ rest \<longrightarrow>
        unserializeCount st = Inr (v, advance (length bs) st))"
proof -
  from count_roundtrip[OF assms] obtain bs where
    bs: "serializeCount_bytes v = Inr bs" "bs \<noteq> []"
      "\<forall>rest. unserializeCount_bytes (bs @ rest) = Some (v, length bs)"
    by blast
  then show ?thesis
    by (auto simp: serializeCount_def unserializeCount_def)
qed

lemma remaining_advance_append [simp]:
  "remaining st = bs @ rest \<Longrightarrow> remaining (advance (length bs) st) = rest"
  by (simp add: remaining_advance)

lemma advance_fields [simp]:
  "d_string_keys (advance n st) = d_string_keys st"
  "d_string_refs (advance n st) = d_string_refs st"
  "d_heap (advance n st) = d_heap st"
  by (simp_all add: advance_def)

lemma remaining_update [simp]:
  "remaining (st\<lparr>d_heap := H\<rparr>) = remaining st"
  "remaining (st\<lparr>d_object_refs := r\<rparr>) = remaining st"
  "remaining (st\<lparr>d_offset := p\<rparr>) = remaining st"
  by (simp_all add: remaining_def)

lemma register_fields [simp]:
  "remaining (register a st) = remaining st"
  "d_string_keys (register a st) = d_string_keys st"
  "d_string_refs (register a st) = d_string_refs st"
  "d_heap (register a st) = d_heap st"
  by (simp_all add: register_def)

lemma heap_update_fields [simp]:
  "remaining (heap_update a f st) = remaining st"
  "d_string_keys (heap_update a f st) = d_string_keys st"
  "d_string_refs (heap_update a f st) = d_string_refs st"
  "d_heap (heap_update a f st) = (d_heap st)[a := f (d_heap st ! a)]"
  by (simp_all add: heap_update_def)

lemma readUint8_Cons:
  "remaining st = b # rest \<Longrightarrow> readUint8 st = Inr (b, advance 1 st) \<and> remaining (advance 1 st) = rest"
  using remaining_advance_append[of st "[b]" rest] by (simp add: readUint8_def)

lemma depth_canon [simp]:
  "depth (canon t) = depth t"
  "depth_list (canon_list ts) = depth_list ts"
  "depth_props (canon_props kvs) = depth_props kvs"
  by (induction t and ts and kvs rule: canon_canon_list_canon_props.induct) simp_all

lemma length_canon [simp]:
  "length (canon_list ts) = length ts"
  "length (canon_props kvs) = length kvs"
proof -
  show "length (canon_list ts) = length ts" by (induction ts) simp_all
  show "length (canon_props kvs) = length kvs" by (induction kvs) auto
qed

lemma map_fst_canon_props [simp]: "map fst (canon_props kvs) = map fst kvs"
  by (induction kvs) auto

lemma depth_pos [simp]: "0 < depth t"
  by (cases t) simp_all


end
